theory Spec2Isabelle
  imports Main "HOL-Library.Monad_Syntax"
begin

section \<open>Python values used by spotipiEinkDisplay.py\<close>

text \<open>
  The exceptions that the modelled code can raise or let through. An exception is a value:
  a fallible function returns \<open>py_error + 'a\<close>, with \<open>Inl\<close> for the raise.
\<close>

datatype py_error =
    ValueError
  | IndexError
  | RecursionError
  | IOError
  | SourceError

text \<open>
  The \<open>text\<close> argument of \<open>_break_fix\<close> is a string on the first call, a list of
  words on the recursive calls, and may be \<open>None\<close>.
\<close>

datatype text_arg = PNone | PStr string | PList "string list"

fun truthy :: "text_arg \<Rightarrow> bool" where
  "truthy PNone = False"
| "truthy (PStr s) = (s \<noteq> [])"
| "truthy (PList ts) = (ts \<noteq> [])"

text \<open>
  \<open>str.split()\<close> without arguments: the maximal runs of non-whitespace characters, in
  order. A \<open>string\<close> here is a list of characters with code points below 256, and
  \<open>is_space\<close> lists those of them that Python counts as whitespace: the ASCII ones,
  U+0085 (next line) and U+00A0 (no-break space). Text with other code points is not
  described.
\<close>

definition is_space :: "char \<Rightarrow> bool" where
  "is_space c = (c \<in> set [CHR '' '', CHR 0x09, CHR 0x0A, CHR 0x0B, CHR 0x0C, CHR 0x0D,
                             CHR 0x1C, CHR 0x1D, CHR 0x1E, CHR 0x1F, CHR 0x85, CHR 0xA0])"

fun split_from :: "string \<Rightarrow> string \<Rightarrow> string list" where
  "split_from cur [] = (if cur = [] then [] else [cur])"
| "split_from cur (c # cs) =
     (if is_space c then (if cur = [] then split_from [] cs else cur # split_from [] cs)
      else split_from (cur @ [c]) cs)"

definition split :: "string \<Rightarrow> string list" where
  "split s = split_from [] s"

text \<open>\<open>' '.join(words)\<close>.\<close>

fun join_sp :: "string list \<Rightarrow> string" where
  "join_sp [] = []"
| "join_sp [x] = x"
| "join_sp (x # y # ys) = x @ '' '' @ join_sp (y # ys)"

fun tokens_of :: "text_arg \<Rightarrow> string list" where
  "tokens_of (PStr s) = split s"
| "tokens_of (PList ts) = ts"
| "tokens_of PNone = []"


section \<open>TextFlow: \<open>_break_fix\<close>\<close>

text \<open>
  The measurement \<open>m t\<close> stands for \<open>int(draw.textlength(text=t, font=font))\<close>, a
  function of the text once the font is fixed. \<open>bsearch\<close> is the \<open>while lo < hi\<close> loop
  of \<open>_break_fix\<close>, started at \<open>lo = 0\<close>, \<open>hi = len(text)\<close>; it returns the final
  \<open>lo\<close>.
\<close>

function bsearch :: "(string \<Rightarrow> int) \<Rightarrow> int \<Rightarrow> string list \<Rightarrow> nat \<Rightarrow> nat \<Rightarrow> nat" where
  "bsearch m width text lo hi =
     (if lo < hi then
        (let mid = (lo + hi + 1) div 2;
             t = join_sp (take mid text);
             w = m t
         in if w \<le> width then bsearch m width text mid hi
            else bsearch m width text lo (mid - 1))
      else lo)"
  by pat_completeness auto
termination
  by (relation "measure (\<lambda>(m, width, text, lo, hi). hi - lo)") auto

declare bsearch.simps [simp del]

text \<open>
  One activation of the generator body on a word list: the segment \<open>(t, w)\<close> it yields
  and the list \<open>text[lo:]\<close> it passes to the recursive call.
\<close>

definition break_fix_step ::
  "(string \<Rightarrow> int) \<Rightarrow> int \<Rightarrow> string list \<Rightarrow> (string \<times> int) \<times> string list" where
  "break_fix_step m width text =
     (let lo = bsearch m width text 0 (length text);
          t = join_sp (take lo text);
          w = m t
      in ((t, w), drop lo text))"

text \<open>
  \<open>list(self._break_fix(text, width, font, draw))\<close>, which is how both callers consume
  the generator. The recursion of the source is not bounded by anything, so the function
  is partial: \<open>None\<close> means that the run never reaches the \<open>return\<close> (CPython ends such a
  run with \<open>RecursionError\<close> once the nested generators exceed the interpreter's
  recursion limit), \<open>Some segs\<close> is the finished list. The interpreter's limit itself,
  about a thousand nested generators and so about a thousand lines, is not modelled.
\<close>

partial_function (option) break_fix ::
  "(string \<Rightarrow> int) \<Rightarrow> int \<Rightarrow> text_arg \<Rightarrow> (string \<times> int) list option" where
  "break_fix m width text =
     (if \<not> truthy text then Some []
      else (case break_fix_step m width (tokens_of text) of
              (seg, rest) \<Rightarrow>
                do { more \<leftarrow> break_fix m width (PList rest); Some (seg # more) }))"

declare break_fix.simps [code]

text \<open>A measurement used in examples: every character is one pixel wide.\<close>

definition mono_width :: "string \<Rightarrow> int" where
  "mono_width s = int (length s)"

text \<open>A word as \<open>str.split()\<close> produces it: non-empty, without whitespace.\<close>

definition wordlike :: "string \<Rightarrow> bool" where
  "wordlike t = (t \<noteq> [] \<and> (\<forall>c \<in> set t. \<not> is_space c))"

text \<open>The segment that \<open>_break_fix\<close> yields for a chunk of words.\<close>

definition segment :: "(string \<Rightarrow> int) \<Rightarrow> string list \<Rightarrow> string \<times> int" where
  "segment m c = (join_sp c, m (join_sp c))"


section \<open>Images\<close>

text \<open>
  A PIL image is its pixel size and a description of how its pixels came about: the
  list of paint operations applied, oldest first. The operations of PIL used by the
  source are modelled by their effect on the size and by an entry in that list;
  resampling, blurring and glyph rendering are not computed.
\<close>

type_synonym font = "string \<times> int"

datatype image = Image (img_width: int) (img_height: int) (img_paint: "paint list")
and paint =
    Decoded string
  | FitOf image
  | CropOf image int int int int
  | Blank
  | ResizeOf image
  | Pasted image int int
  | Blurred int
  | Text int int string string font

definition paint_on :: "image \<Rightarrow> paint list \<Rightarrow> image" where
  "paint_on img ps = Image (img_width img) (img_height img) (img_paint img @ ps)"

text \<open>
  \<open>image.resize(size, ...)\<close> and \<open>ImageOps.fit(image, size, ...)\<close> return an image of
  exactly \<open>size\<close>; PIL rejects a source or a target without pixels (it raises
  \<open>ValueError\<close> or \<open>ZeroDivisionError\<close>, which the model does not tell apart).
\<close>

definition resize :: "image \<Rightarrow> int \<Rightarrow> int \<Rightarrow> py_error + image" where
  "resize img w h =
     (if 0 < w \<and> 0 < h \<and> 0 < img_width img \<and> 0 < img_height img
      then Inr (Image w h [ResizeOf img]) else Inl ValueError)"

definition imageops_fit :: "image \<Rightarrow> int \<Rightarrow> int \<Rightarrow> py_error + image" where
  "imageops_fit img w h =
     (if 0 < w \<and> 0 < h \<and> 0 < img_width img \<and> 0 < img_height img
      then Inr (Image w h [FitOf img]) else Inl ValueError)"

text \<open>
  \<open>image.crop((left, upper, right, lower))\<close> returns an image of size
  \<open>(right - left, lower - upper)\<close> and raises \<open>ValueError\<close> when a coordinate pair is
  reversed.
\<close>

definition crop :: "image \<Rightarrow> int \<Rightarrow> int \<Rightarrow> int \<Rightarrow> int \<Rightarrow> py_error + image" where
  "crop img left upper right lower =
     (if right < left \<or> lower < upper then Inl ValueError
      else Inr (Image (right - left) (lower - upper) [CropOf img left upper right lower]))"

text \<open>\<open>Image.new('RGB', (w, h))\<close>: a black image; negative sizes raise \<open>ValueError\<close>.\<close>

definition image_new :: "int \<Rightarrow> int \<Rightarrow> py_error + image" where
  "image_new w h = (if w < 0 \<or> h < 0 then Inl ValueError else Inr (Image w h [Blank]))"

definition paste :: "image \<Rightarrow> image \<Rightarrow> int \<Rightarrow> int \<Rightarrow> image" where
  "paste img src x y = paint_on img [Pasted src x y]"

definition gaussian_blur :: "image \<Rightarrow> int \<Rightarrow> image" where
  "gaussian_blur img r = paint_on img [Blurred r]"

definition draw_text :: "image \<Rightarrow> int \<Rightarrow> int \<Rightarrow> string \<Rightarrow> font \<Rightarrow> string \<Rightarrow> image" where
  "draw_text img x y t fnt fill = paint_on img [Text x y t fill fnt]"


section \<open>TextBlockRenderer: \<open>_fit_text_top_down\<close> and \<open>_fit_text_bottom_up\<close>\<close>

text \<open>
  The body of the \<open>for t, _ in pieces\<close> loop, which is the same in both functions: the
  shadow first when a shadow offset is configured, then the text.
\<close>

definition draw_line ::
  "image \<Rightarrow> int \<Rightarrow> int \<Rightarrow> string \<Rightarrow> string \<Rightarrow> font \<Rightarrow> int \<Rightarrow> string \<Rightarrow> image" where
  "draw_line img x_start_offset offset_text_px_shadow text_color shadow_text_color fnt y t =
     (let img1 = (if offset_text_px_shadow > 0
                  then draw_text img (x_start_offset + offset_text_px_shadow)
                         (y + offset_text_px_shadow) t fnt shadow_text_color
                  else img)
      in draw_text img1 x_start_offset y t fnt text_color)"

text \<open>The loop: the state is the image, the running \<open>y\<close> and \<open>h_taken_by_text\<close>.\<close>

fun draw_pieces ::
  "int \<Rightarrow> int \<Rightarrow> string \<Rightarrow> string \<Rightarrow> font \<Rightarrow> int \<Rightarrow> (string \<times> int) list \<Rightarrow>
   image \<times> int \<times> int \<Rightarrow> image \<times> int \<times> int" where
  "draw_pieces x sh tc sc fnt font_size [] st = st"
| "draw_pieces x sh tc sc fnt font_size ((t, w) # pieces) (img, y, h) =
     draw_pieces x sh tc sc fnt font_size pieces
       (draw_line img x sh tc sc fnt y t, y + font_size, h + font_size)"

text \<open>
  Both renderers take the measurement \<open>textlength\<close> (\<open>draw.textlength\<close> truncated to an integer,
  by font) and return the image drawn on together with the height used.
\<close>

definition fit_text_top_down ::
  "(font \<Rightarrow> string \<Rightarrow> int) \<Rightarrow> image \<Rightarrow> text_arg \<Rightarrow> string \<Rightarrow> string \<Rightarrow> font \<Rightarrow> int \<Rightarrow> int \<Rightarrow>
   int \<Rightarrow> int \<Rightarrow> int \<Rightarrow> py_error + image \<times> int" where
  "fit_text_top_down textlength img text text_color shadow_text_color fnt y_offset font_size
     x_start_offset x_end_offset offset_text_px_shadow =
     (let width = img_width img - x_start_offset - x_end_offset - offset_text_px_shadow
      in case break_fix (textlength fnt) width text of
           None \<Rightarrow> Inl RecursionError
         | Some pieces \<Rightarrow>
             (case draw_pieces x_start_offset offset_text_px_shadow text_color
                     shadow_text_color fnt font_size pieces (img, y_offset, 0) of
                (img', y, h_taken_by_text) \<Rightarrow> Inr (img', h_taken_by_text)))"

definition fit_text_bottom_up ::
  "(font \<Rightarrow> string \<Rightarrow> int) \<Rightarrow> image \<Rightarrow> text_arg \<Rightarrow> string \<Rightarrow> string \<Rightarrow> font \<Rightarrow> int \<Rightarrow> int \<Rightarrow>
   int \<Rightarrow> int \<Rightarrow> int \<Rightarrow> py_error + image \<times> int" where
  "fit_text_bottom_up textlength img text text_color shadow_text_color fnt y_offset font_size
     x_start_offset x_end_offset offset_text_px_shadow =
     (let width = img_width img - x_start_offset - x_end_offset - offset_text_px_shadow
      in case break_fix (textlength fnt) width text of
           None \<Rightarrow> Inl RecursionError
         | Some pieces \<Rightarrow>
             (let y_offset1 = (if length pieces > 1
                               then y_offset - (int (length pieces) - 1) * font_size
                               else y_offset)
              in case draw_pieces x_start_offset offset_text_px_shadow text_color
                        shadow_text_color fnt font_size pieces (img, y_offset1, 0) of
                   (img', y, h_taken_by_text) \<Rightarrow> Inr (img', h_taken_by_text)))"

text \<open>
  What \<open>draw_line\<close> appends to the paint list for one line, and what the whole loop
  appends when its first line is drawn at \<open>y\<close>.
\<close>

definition line_paint :: "int \<Rightarrow> int \<Rightarrow> string \<Rightarrow> string \<Rightarrow> font \<Rightarrow> int \<Rightarrow> string \<Rightarrow> paint list" where
  "line_paint x sh tc sc fnt y t =
     (if sh > 0 then [Text (x + sh) (y + sh) t sc fnt] else []) @ [Text x y t tc fnt]"

fun lines_paint ::
  "int \<Rightarrow> int \<Rightarrow> string \<Rightarrow> string \<Rightarrow> font \<Rightarrow> int \<Rightarrow> int \<Rightarrow> (string \<times> int) list \<Rightarrow> paint list" where
  "lines_paint x sh tc sc fnt font_size y [] = []"
| "lines_paint x sh tc sc fnt font_size y ((t, w) # pieces) =
     line_paint x sh tc sc fnt y t @ lines_paint x sh tc sc fnt font_size (y + font_size) pieces"


section \<open>Configuration\<close>

text \<open>
  The options read from \<open>eink_options.ini\<close>, as \<open>getint\<close>, \<open>getboolean\<close> and \<open>get\<close>
  return them; an option read with a \<open>fallback\<close> may be absent. The last five fields are
  the attributes that \<open>__init__\<close> sets once and nothing changes afterwards.
\<close>

record config =
  cfg_width :: int
  cfg_height :: int
  cfg_album_cover_small_px :: int
  cfg_offset_px_left :: int
  cfg_offset_px_right :: int
  cfg_offset_px_top :: int
  cfg_offset_px_bottom :: int
  cfg_offset_text_px_shadow :: "int option"
  cfg_text_direction :: "string option"
  cfg_background_blur :: "int option"
  cfg_background_mode :: "string option"
  cfg_album_cover_small :: bool
  cfg_font_path :: string
  cfg_font_size_title :: int
  cfg_font_size_artist :: int
  cfg_display_refresh_counter :: "int option"
  idle_display_time :: int
  idle_shuffle :: bool
  idle_images :: "string list"
  default_idle_image :: string
  delay :: int

definition fallback :: "'a \<Rightarrow> 'a option \<Rightarrow> 'a" where
  "fallback d v = (case v of None \<Rightarrow> d | Some x \<Rightarrow> x)"

definition and_then :: "py_error + 'a \<Rightarrow> ('a \<Rightarrow> py_error + 'b) \<Rightarrow> py_error + 'b" where
  "and_then r f = (case r of Inl e \<Rightarrow> Inl e | Inr x \<Rightarrow> f x)"


section \<open>FrameCompositor: \<open>_gen_pic\<close>\<close>

text \<open>
  \<open>range(0, stop, step)\<close> as a list; a zero step raises \<open>ValueError\<close>.
\<close>

definition py_range :: "int \<Rightarrow> int \<Rightarrow> py_error + int list" where
  "py_range stop step =
     (if step = 0 then Inl ValueError
      else if 0 < step then Inr (map (\<lambda>k. int k * step) [0..<nat ((stop + step - 1) div step)])
      else Inr (map (\<lambda>k. int k * step) [0..<nat ((- stop - step - 1) div (- step))]))"

text \<open>
  The two nested \<open>for\<close> loops of the \<open>repeat\<close> mode. The inner \<open>range\<close> is built once
  per outer iteration, so its \<open>ValueError\<close> needs the outer loop to run at least once.
\<close>

definition tile :: "image \<Rightarrow> image \<Rightarrow> int \<Rightarrow> int \<Rightarrow> int \<Rightarrow> int \<Rightarrow> py_error + image" where
  "tile canvas source target_w target_h bg_w bg_h =
     and_then (py_range target_w bg_w) (\<lambda>xs.
       if xs = [] then Inr canvas
       else and_then (py_range target_h bg_h) (\<lambda>ys.
         Inr (fold (\<lambda>x c. fold (\<lambda>y c. paste c source x y) ys c) xs canvas)))"

text \<open>Lines 285 to 307: the background in mode \<open>fit\<close>, \<open>repeat\<close> or anything else.\<close>

definition gen_background :: "config \<Rightarrow> image \<Rightarrow> py_error + image" where
  "gen_background cfg source =
     (let bg_w = img_width source;
          bg_h = img_height source;
          bg_mode = fallback ''fit'' (cfg_background_mode cfg)
      in if bg_mode = ''fit'' then
           (if bg_w \<noteq> cfg_width cfg \<or> bg_h \<noteq> cfg_height cfg
            then imageops_fit source (cfg_width cfg) (cfg_height cfg)
            else crop source 0 0 (cfg_width cfg) (cfg_height cfg))
         else if bg_mode = ''repeat'' then
           and_then (image_new (cfg_width cfg) (cfg_height cfg)) (\<lambda>canvas.
             tile canvas source (cfg_width cfg) (cfg_height cfg) bg_w bg_h)
         else crop source 0 0 (cfg_width cfg) (cfg_height cfg))"

text \<open>Lines 309 to 317: the optional blur and the optional small cover.\<close>

definition gen_overlay :: "config \<Rightarrow> image \<Rightarrow> bool \<Rightarrow> image \<Rightarrow> py_error + image" where
  "gen_overlay cfg source show_small_cover background =
     (let album_cover_small_px = cfg_album_cover_small_px cfg;
          background_blur = fallback 0 (cfg_background_blur cfg);
          blurred = (if cfg_album_cover_small cfg \<and> background_blur > 0
                     then gaussian_blur background background_blur else background)
      in if show_small_cover \<and> cfg_album_cover_small cfg then
           and_then (resize source album_cover_small_px album_cover_small_px) (\<lambda>cover_smaller.
             Inr (paste blurred cover_smaller
                    ((img_width blurred - album_cover_small_px) div 2) (cfg_offset_px_top cfg)))
         else Inr blurred)"

text \<open>
  Lines 319 to 382: the fonts and the two text blocks, by text direction. A font is the
  pair of its path and size; \<open>ImageFont.truetype\<close> is taken to find the file.
\<close>

definition gen_text ::
  "config \<Rightarrow> (font \<Rightarrow> string \<Rightarrow> int) \<Rightarrow> text_arg \<Rightarrow> text_arg \<Rightarrow> image \<Rightarrow> py_error + image" where
  "gen_text cfg textlength artist title img =
     (let album_cover_small_px = cfg_album_cover_small_px cfg;
          offset_px_left = cfg_offset_px_left cfg;
          offset_px_right = cfg_offset_px_right cfg;
          offset_px_top = cfg_offset_px_top cfg;
          offset_px_bottom = cfg_offset_px_bottom cfg;
          offset_text_px_shadow = fallback 0 (cfg_offset_text_px_shadow cfg);
          text_direction = fallback ''top-down'' (cfg_text_direction cfg);
          font_title = (cfg_font_path cfg, cfg_font_size_title cfg);
          font_artist = (cfg_font_path cfg, cfg_font_size_artist cfg)
      in if text_direction = ''top-down'' then
           (let title_position_y = album_cover_small_px + offset_px_top + 10
            in and_then (fit_text_top_down textlength img title ''white'' ''black'' font_title
                           title_position_y (cfg_font_size_title cfg)
                           offset_px_left offset_px_right offset_text_px_shadow)
                 (\<lambda>(img1, title_height).
                    let artist_position_y = album_cover_small_px + offset_px_top + 10 + title_height
                    in and_then (fit_text_top_down textlength img1 artist ''white'' ''black''
                                   font_artist artist_position_y (cfg_font_size_artist cfg)
                                   offset_px_left offset_px_right offset_text_px_shadow)
                         (\<lambda>(img2, artist_height). Inr img2)))
         else if text_direction = ''bottom-up'' then
           (let artist_position_y =
                  img_height img - (offset_px_bottom + cfg_font_size_artist cfg)
            in and_then (fit_text_bottom_up textlength img artist ''white'' ''black'' font_artist
                           artist_position_y (cfg_font_size_artist cfg)
                           offset_px_left offset_px_right offset_text_px_shadow)
                 (\<lambda>(img1, artist_height).
                    let title_position_y =
                          img_height img1 - (offset_px_bottom + cfg_font_size_title cfg)
                            - artist_height
                    in and_then (fit_text_bottom_up textlength img1 title ''white'' ''black''
                                   font_title title_position_y (cfg_font_size_title cfg)
                                   offset_px_left offset_px_right offset_text_px_shadow)
                         (\<lambda>(img2, title_height). Inr img2)))
         else Inr img)"

definition gen_pic ::
  "config \<Rightarrow> (font \<Rightarrow> string \<Rightarrow> int) \<Rightarrow> image \<Rightarrow> text_arg \<Rightarrow> text_arg \<Rightarrow> bool \<Rightarrow> py_error + image" where
  "gen_pic cfg textlength source artist title show_small_cover =
     and_then (gen_background cfg source) (\<lambda>background.
       and_then (gen_overlay cfg source show_small_cover background) (\<lambda>img.
         gen_text cfg textlength artist title img))"


section \<open>The service: state, collaborators and trace\<close>

text \<open>
  \<open>_get_song_info\<close> returns \<open>None\<close> (from the recursion limiter), the empty list, or
  \<open>[song_title, cover_url, artist]\<close>. The first two are false in a condition.
\<close>

datatype song_info = RNone | REmpty | RTrack string string string

fun song_truthy :: "song_info \<Rightarrow> bool" where
  "song_truthy RNone = False"
| "song_truthy REmpty = False"
| "song_truthy (RTrack song cover_url artist) = True"

text \<open>
  What one execution of the body of \<open>_get_song_info\<close> can meet: no token; a result that
  is \<open>None\<close>; an episode (name, show name, first image URL); a track (name, artist names,
  first album image URL); an ad; the type \<open>unknown\<close> (also when the key is missing);
  any other type; an item that makes the subscripts raise \<open>TypeError\<close>; any other
  exception of the client, which the function does not catch.
\<close>

datatype response =
    NoToken
  | NoPlayback
  | Episode string string string
  | Track string "string list" string
  | Ad
  | Unknown
  | OtherType string
  | Malformed
  | Broken

text \<open>\<open>', '.join(names)\<close>.\<close>

fun join_comma :: "string list \<Rightarrow> string" where
  "join_comma [] = []"
| "join_comma [x] = x"
| "join_comma (x # y # ys) = x @ '', '' @ join_comma (y # ys)"

text \<open>
  The calls that the service makes, in order: \<open>_display_update_process(song_request)\<close>,
  \<open>_display_clean()\<close>, \<open>_display_image(image)\<close>, \<open>time.sleep(n)\<close> for a whole \<open>n\<close>, and
  the \<open>time.sleep(0.01)\<close> before a retry.
\<close>

datatype event =
    Build song_info
  | Clean
  | Show image
  | Sleep int
  | SleepRetry

text \<open>
  The attributes that change: \<open>self.song_prev\<close>, \<open>self.pic_counter\<close>,
  \<open>self.idle_index\<close> and the \<open>count\<close> attribute that \<open>limit_recursion\<close> puts on
  \<open>_get_song_info\<close>; with them the number of answers taken from the track source, the
  number of \<open>random.choice\<close> draws, and the trace of calls made so far.
\<close>

record state =
  song_prev :: string
  pic_counter :: int
  idle_index :: nat
  call_count :: int
  polls :: nat
  draws :: nat
  trace :: "event list"

text \<open>
  The collaborators: the answer of the track source to the \<open>n\<close>-th execution of the
  poll body, the cover download (\<open>requests.get\<close>, \<open>raise_for_status\<close>, \<open>Image.open\<close>;
  \<open>None\<close> when any of them raises), \<open>Image.open\<close> on a path, the text measurement, and
  the index that the \<open>n\<close>-th \<open>random.choice\<close> picks.
\<close>

record env =
  env_source :: "nat \<Rightarrow> response"
  env_fetch_cover :: "string \<Rightarrow> image option"
  env_open_image :: "string \<Rightarrow> image option"
  env_textlength :: "font \<Rightarrow> string \<Rightarrow> int"
  env_random_choice :: "nat \<Rightarrow> nat"

definition initial_state :: state where
  "initial_state = \<lparr>song_prev = [], pic_counter = 0, idle_index = 0, call_count = 0,
                     polls = 0, draws = 0, trace = []\<rparr>"

definition log_event :: "event \<Rightarrow> state \<Rightarrow> state" where
  "log_event e s = s\<lparr>trace := trace s @ [e]\<rparr>"

definition open_image :: "env \<Rightarrow> string \<Rightarrow> py_error + image" where
  "open_image env path = (case env_open_image env path of None \<Rightarrow> Inl IOError | Some img \<Rightarrow> Inr img)"


section \<open>IdleGallery: \<open>_get_idle_image\<close>\<close>

text \<open>
  The path that \<open>_get_idle_image\<close> hands to \<open>Image.open\<close>, with the state after the
  cursor update; \<open>self.idle_images[self.idle_index]\<close> raises \<open>IndexError\<close> out of range.
\<close>

definition get_idle_image_path :: "env \<Rightarrow> config \<Rightarrow> state \<Rightarrow> (py_error + string) \<times> state" where
  "get_idle_image_path env cfg s =
     (if idle_images cfg = [] then (Inr (default_idle_image cfg), s)
      else if idle_shuffle cfg then
        (Inr (idle_images cfg ! (env_random_choice env (draws s) mod length (idle_images cfg))),
         s\<lparr>draws := draws s + 1\<rparr>)
      else if idle_index s < length (idle_images cfg) then
        (Inr (idle_images cfg ! idle_index s),
         s\<lparr>idle_index := (idle_index s + 1) mod length (idle_images cfg)\<rparr>)
      else (Inl IndexError, s))"

definition get_idle_image :: "env \<Rightarrow> config \<Rightarrow> state \<Rightarrow> (py_error + image) \<times> state" where
  "get_idle_image env cfg s =
     (case get_idle_image_path env cfg s of
        (Inl e, s1) \<Rightarrow> (Inl e, s1)
      | (Inr img_path, s1) \<Rightarrow> (open_image env img_path, s1))"

text \<open>\<open>n\<close> calls in a row: the paths selected, in order, and the state after the last.\<close>

fun select_paths :: "env \<Rightarrow> config \<Rightarrow> nat \<Rightarrow> state \<Rightarrow> (py_error + string) list \<times> state" where
  "select_paths env cfg 0 s = ([], s)"
| "select_paths env cfg (Suc n) s =
     (case get_idle_image_path env cfg s of
        (r, s1) \<Rightarrow> (case select_paths env cfg n s1 of (rs, s2) \<Rightarrow> (r # rs, s2)))"

text \<open>
  \<open>n\<close> calls of \<open>_get_idle_image\<close> in a row: what each call returns (the opened image,
  or the exception), in order, and the state after the last.
\<close>

fun select_images :: "env \<Rightarrow> config \<Rightarrow> nat \<Rightarrow> state \<Rightarrow> (py_error + image) list \<times> state" where
  "select_images env cfg 0 s = ([], s)"
| "select_images env cfg (Suc n) s =
     (case get_idle_image env cfg s of
        (r, s1) \<Rightarrow> (case select_images env cfg n s1 of (rs, s2) \<Rightarrow> (r # rs, s2)))"


section \<open>RefreshCounter and display: \<open>_display_update_process\<close>\<close>

text \<open>
  \<open>_display_clean\<close> and \<open>_display_image\<close> catch every exception of the display driver,
  so for the service they are calls that always return.
\<close>

definition display_clean :: "state \<Rightarrow> state" where
  "display_clean s = log_event Clean s"

definition display_image :: "image \<Rightarrow> state \<Rightarrow> state" where
  "display_image img s = log_event (Show img) s"

text \<open>Lines 390 to 423: the frame for a track, with the fallback cover, or for idle.\<close>

definition build_frame :: "env \<Rightarrow> config \<Rightarrow> song_info \<Rightarrow> state \<Rightarrow> (py_error + image) \<times> state" where
  "build_frame env cfg song_request s =
     (case song_request of
        RTrack song cover_url artist \<Rightarrow>
          (case and_then (case env_fetch_cover env cover_url of
                            None \<Rightarrow> Inl IOError | Some cover \<Rightarrow> Inr cover)
                  (\<lambda>cover. gen_pic cfg (env_textlength env) cover (PStr artist) (PStr song) True) of
             Inr img \<Rightarrow> (Inr img, s)
           | Inl e \<Rightarrow>
               (and_then (open_image env (default_idle_image cfg)) (\<lambda>fallback_cover.
                  gen_pic cfg (env_textlength env) fallback_cover (PStr artist) (PStr song) True),
                s))
      | _ \<Rightarrow>
          (case get_idle_image env cfg s of
             (Inl e, s1) \<Rightarrow> (Inl e, s1)
           | (Inr idle_img, s1) \<Rightarrow>
               (gen_pic cfg (env_textlength env) idle_img (PStr []) (PStr []) False, s1)))"

text \<open>Lines 425 to 433: the occasional clean, the push and the counter.\<close>

definition refresh_and_show :: "config \<Rightarrow> image \<Rightarrow> state \<Rightarrow> state" where
  "refresh_and_show cfg img s =
     (let refresh_limit = fallback 20 (cfg_display_refresh_counter cfg);
          s1 = (if pic_counter s > refresh_limit
                then (display_clean s)\<lparr>pic_counter := 0\<rparr> else s);
          s2 = display_image img s1
      in s2\<lparr>pic_counter := pic_counter s2 + 1\<rparr>)"

text \<open>The result is the exception that escapes, if one does, and the state then.\<close>

definition display_update_process ::
  "env \<Rightarrow> config \<Rightarrow> song_info \<Rightarrow> state \<Rightarrow> py_error option \<times> state" where
  "display_update_process env cfg song_request s =
     (case build_frame env cfg song_request (log_event (Build song_request) s) of
        (Inl e, s1) \<Rightarrow> (Some e, s1)
      | (Inr img, s1) \<Rightarrow> (None, refresh_and_show cfg img s1))"


section \<open>PlaybackPoller: \<open>limit_recursion\<close>, \<open>_get_song_info\<close> and \<open>start\<close>\<close>

text \<open>
  \<open>_get_song_info\<close> under \<open>@limit_recursion(limit=10)\<close>: the wrapper counts the call,
  runs the body while the count is below the limit and returns \<open>None\<close> otherwise, then
  takes the count back. The decrement is not in a \<open>finally\<close>: an exception skips it.
\<close>

function get_song_info :: "env \<Rightarrow> state \<Rightarrow> (py_error + song_info) \<times> state" where
  "get_song_info env s =
     (let s1 = s\<lparr>call_count := call_count s + 1\<rparr>
      in if call_count s1 < 10 then
           (let s2 = s1\<lparr>polls := polls s1 + 1\<rparr>
            in case (case env_source env (polls s1) of
                       NoToken \<Rightarrow> (Inr REmpty, s2)
                     | NoPlayback \<Rightarrow> (Inr REmpty, s2)
                     | Episode song artist cover_url \<Rightarrow> (Inr (RTrack song cover_url artist), s2)
                     | Track song artists cover_url \<Rightarrow>
                         (Inr (RTrack song cover_url (join_comma artists)), s2)
                     | Ad \<Rightarrow> (Inr REmpty, s2)
                     | Unknown \<Rightarrow> get_song_info env (log_event SleepRetry s2)
                     | OtherType ctype \<Rightarrow> (Inr REmpty, s2)
                     | Malformed \<Rightarrow> get_song_info env (log_event SleepRetry s2)
                     | Broken \<Rightarrow> (Inl SourceError, s2)) of
                 (Inl e, s3) \<Rightarrow> (Inl e, s3)
               | (Inr result, s3) \<Rightarrow> (Inr result, s3\<lparr>call_count := call_count s3 - 1\<rparr>))
         else (Inr RNone, s1\<lparr>call_count := call_count s1 - 1\<rparr>))"
  by pat_completeness auto
termination
  by (relation "measure (\<lambda>(env, s). nat (10 - call_count s))") (auto simp: log_event_def)

declare get_song_info.simps [simp del]

text \<open>
  Lines 504 to 513: the idle wait. The result is the exception that ends it, if one
  does, the final value of \<open>elapsed\<close>, and the state.
\<close>

function idle_wait :: "env \<Rightarrow> config \<Rightarrow> int \<Rightarrow> state \<Rightarrow> py_error option \<times> int \<times> state" where
  "idle_wait env cfg elapsed s =
     (let sleep_increment = 5
      in if elapsed < idle_display_time cfg then
           (let s1 = log_event (Sleep sleep_increment) s;
                elapsed1 = elapsed + sleep_increment
            in case get_song_info env s1 of
                 (Inl e, s2) \<Rightarrow> (Some e, elapsed1, s2)
               | (Inr r, s2) \<Rightarrow>
                   if song_truthy r then (None, elapsed1, s2)
                   else idle_wait env cfg elapsed1 s2)
         else (None, elapsed, s))"
  by pat_completeness auto
termination
  by (relation "measure (\<lambda>(env, cfg, elapsed, s). nat (idle_display_time cfg - elapsed))") auto

declare idle_wait.simps [simp del]

text \<open>
  One pass through the body of \<open>while True\<close> in \<open>start\<close>, up to the next test of the
  loop: an exception inside the \<open>try\<close> is logged and the pass ends with
  \<open>time.sleep(self.delay)\<close>, as a pass for a track does; the idle branch ends with
  \<open>continue\<close>.
\<close>

definition sleep_delay :: "config \<Rightarrow> state \<Rightarrow> state" where
  "sleep_delay cfg s = log_event (Sleep (delay cfg)) s"

definition iteration :: "env \<Rightarrow> config \<Rightarrow> state \<Rightarrow> state" where
  "iteration env cfg s =
     (case get_song_info env s of
        (Inl e, s1) \<Rightarrow> sleep_delay cfg s1
      | (Inr song_request, s1) \<Rightarrow>
          (case song_request of
             RTrack song cover_url artist \<Rightarrow>
               (let new_song_key = song @ cover_url
                in if song_prev s1 \<noteq> new_song_key then
                     (case display_update_process env cfg song_request
                             (s1\<lparr>song_prev := new_song_key\<rparr>) of
                        (r, s2) \<Rightarrow> sleep_delay cfg s2)
                   else sleep_delay cfg s1)
           | _ \<Rightarrow>
               (case display_update_process env cfg REmpty (s1\<lparr>song_prev := ''NO_SONG''\<rparr>) of
                  (Some e, s2) \<Rightarrow> sleep_delay cfg s2
                | (None, s2) \<Rightarrow>
                    (case idle_wait env cfg 0 s2 of
                       (Some e, elapsed, s3) \<Rightarrow> sleep_delay cfg s3
                     | (None, elapsed, s3) \<Rightarrow> s3))))"

text \<open>
  \<open>n\<close> passes of the loop in a row. (The \<open>_display_clean()\<close> that \<open>start\<close> calls once
  before the loop is not part of a pass.)
\<close>

fun run :: "env \<Rightarrow> config \<Rightarrow> nat \<Rightarrow> state \<Rightarrow> state" where
  "run env cfg 0 s = s"
| "run env cfg (Suc n) s = run env cfg n (iteration env cfg s)"

text \<open>
  The state after \<open>n\<close> increments of the idle wait that begins in state \<open>s\<close>: each
  increment sleeps 5 units and polls once.
\<close>

fun wait_state :: "env \<Rightarrow> nat \<Rightarrow> state \<Rightarrow> state" where
  "wait_state env 0 s = s"
| "wait_state env (Suc n) s = snd (get_song_info env (log_event (Sleep 5) (wait_state env n s)))"

text \<open>The calls of \<open>_display_update_process\<close> in a trace.\<close>

fun is_build :: "event \<Rightarrow> bool" where
  "is_build (Build r) = True"
| "is_build e = False"

definition builds :: "event list \<Rightarrow> event list" where
  "builds evs = filter is_build evs"


text \<open>
  The answers on which one execution of the poll body returns the empty list at once,
  and those on which it returns a track.
\<close>

fun quiet :: "response \<Rightarrow> bool" where
  "quiet NoToken = True"
| "quiet NoPlayback = True"
| "quiet Ad = True"
| "quiet (OtherType ctype) = True"
| "quiet r = False"

fun playing :: "response \<Rightarrow> bool" where
  "playing (Episode song artist cover_url) = True"
| "playing (Track song artists cover_url) = True"
| "playing r = False"

text \<open>\<open>n\<close> frame pushes in a row, one per frame of the list.\<close>

definition pushes :: "config \<Rightarrow> image list \<Rightarrow> state \<Rightarrow> state" where
  "pushes cfg imgs s = fold (refresh_and_show cfg) imgs s"


section \<open>Example values\<close>

text \<open>
  A configuration for a 600 by 448 display, a measurement of half the font size per
  character, and collaborators that always deliver.
\<close>

definition example_config :: config where
  "example_config =
     \<lparr>cfg_width = 600, cfg_height = 448, cfg_album_cover_small_px = 200,
      cfg_offset_px_left = 20, cfg_offset_px_right = 20, cfg_offset_px_top = 0,
      cfg_offset_px_bottom = 20, cfg_offset_text_px_shadow = Some 4,
      cfg_text_direction = Some ''bottom-up'', cfg_background_blur = Some 5,
      cfg_background_mode = Some ''fit'', cfg_album_cover_small = True,
      cfg_font_path = ''font.ttf'', cfg_font_size_title = 45, cfg_font_size_artist = 35,
      cfg_display_refresh_counter = Some 20, idle_display_time = 300, idle_shuffle = False,
      idle_images = [''a.png'', ''b.jpg'', ''c.jpeg''], default_idle_image = ''default.jpg'',
      delay = 1\<rparr>"

definition example_textlength :: "font \<Rightarrow> string \<Rightarrow> int" where
  "example_textlength fnt t = snd fnt * int (length t) div 2"

definition example_env :: env where
  "example_env =
     \<lparr>env_source = (\<lambda>n. Track ''Hey Jude'' [''The Beatles''] ''http://covers/1''),
      env_fetch_cover = (\<lambda>url. Some (Image 640 640 [Decoded url])),
      env_open_image = (\<lambda>path. Some (Image 300 200 [Decoded path])),
      env_textlength = example_textlength,
      env_random_choice = (\<lambda>n. n)\<rparr>"

definition example_frame :: image where
  "example_frame = Image 600 448 [Blank]"


text \<open>
  Track sources for the examples: one that says \<open>unknown\<close> for ever, one that says it
  twice before the track, one that is silent for three polls before the track, and one
  that is silent for ever; and a configuration with an idle wait of 10 time units.
\<close>

definition unknown_env :: env where
  "unknown_env = example_env\<lparr>env_source := (\<lambda>n. Unknown)\<rparr>"

definition late_track_env :: env where
  "late_track_env =
     example_env\<lparr>env_source :=
       (\<lambda>n. if n < 2 then Unknown else Track ''Hey Jude'' [''The Beatles''] ''http://covers/1'')\<rparr>"

definition idle_then_play_env :: env where
  "idle_then_play_env =
     example_env\<lparr>env_source :=
       (\<lambda>n. if n < 3 then NoPlayback
            else Track ''Hey Jude'' [''The Beatles''] ''http://covers/1'')\<rparr>"

definition silent_env :: env where
  "silent_env = example_env\<lparr>env_source := (\<lambda>n. NoPlayback)\<rparr>"

definition short_idle_config :: config where
  "short_idle_config = example_config\<lparr>idle_display_time := 10\<rparr>"

text \<open>
  The state of the example service when its first idle wait begins: one poll made, the
  key \<open>NO_SONG\<close> stored, the first idle image built and pushed.
\<close>

definition example_idle_state :: state where
  "example_idle_state =
     \<lparr>song_prev = ''NO_SONG'', pic_counter = 1, idle_index = 1, call_count = 0, polls = 1,
      draws = 0,
      trace = [Build REmpty,
               Show (Image 600 448 [FitOf (Image 300 200 [Decoded ''a.png'']), Blurred 5])]\<rparr>"


section \<open>Facts about TextFlow\<close>

lemma bsearch_done: "\<not> lo < hi \<Longrightarrow> bsearch m width toks lo hi = lo"
  by (subst bsearch.simps) simp

lemma bsearch_fit:
  "lo < hi \<Longrightarrow> m (join_sp (take ((lo + hi + 1) div 2) toks)) \<le> width \<Longrightarrow>
   bsearch m width toks lo hi = bsearch m width toks ((lo + hi + 1) div 2) hi"
  by (subst bsearch.simps) (simp add: Let_def)

lemma bsearch_over:
  "lo < hi \<Longrightarrow> \<not> m (join_sp (take ((lo + hi + 1) div 2) toks)) \<le> width \<Longrightarrow>
   bsearch m width toks lo hi = bsearch m width toks lo ((lo + hi + 1) div 2 - 1)"
  by (subst bsearch.simps) (simp add: Let_def)

text \<open>The loop ends between its bounds.\<close>

lemma bsearch_bounds:
  "lo \<le> hi \<Longrightarrow> lo \<le> bsearch m width toks lo hi \<and> bsearch m width toks lo hi \<le> hi"
proof (induction m width toks lo hi rule: bsearch.induct)
  case (1 m width toks lo hi)
  show ?case
  proof (cases "lo < hi")
    case False
    with "1.prems" show ?thesis by (simp add: bsearch_done)
  next
    case True
    let ?mid = "(lo + hi + 1) div 2"
    have mid: "lo < ?mid" "?mid \<le> hi" using True by linarith+
    show ?thesis
    proof (cases "m (join_sp (take ?mid toks)) \<le> width")
      case fits: True
      have "?mid \<le> bsearch m width toks ?mid hi \<and> bsearch m width toks ?mid hi \<le> hi"
        using "1.IH"(1)[OF True refl refl refl fits] mid by blast
      with mid show ?thesis
        unfolding bsearch_fit[where lo=lo and hi=hi and m=m and toks=toks and width=width, OF True fits]
        by linarith
    next
      case over: False
      have "lo \<le> bsearch m width toks lo (?mid - 1) \<and> bsearch m width toks lo (?mid - 1) \<le> ?mid - 1"
        using "1.IH"(2)[OF True refl refl refl over] mid by simp
      with mid show ?thesis
        unfolding bsearch_over[where lo=lo and hi=hi and m=m and toks=toks and width=width, OF True over]
        by linarith
    qed
  qed
qed

text \<open>Wherever the loop moved \<open>lo\<close> to, the prefix of that length was measured and fits.\<close>

lemma bsearch_fits:
  "bsearch m width toks lo hi = lo \<or> m (join_sp (take (bsearch m width toks lo hi) toks)) \<le> width"
proof (induction m width toks lo hi rule: bsearch.induct)
  case (1 m width toks lo hi)
  show ?case
  proof (cases "lo < hi")
    case False
    then show ?thesis by (simp add: bsearch_done)
  next
    case True
    let ?mid = "(lo + hi + 1) div 2"
    show ?thesis
    proof (cases "m (join_sp (take ?mid toks)) \<le> width")
      case fits: True
      have "bsearch m width toks ?mid hi = ?mid \<or>
            m (join_sp (take (bsearch m width toks ?mid hi) toks)) \<le> width"
        using "1.IH"(1)[OF True refl refl refl fits] by blast
      with fits show ?thesis
        unfolding bsearch_fit[where lo=lo and hi=hi and m=m and toks=toks and width=width, OF True fits]
        by auto
    next
      case over: False
      show ?thesis
        unfolding bsearch_over[where lo=lo and hi=hi and m=m and toks=toks and width=width, OF True over]
        using "1.IH"(2)[OF True refl refl refl over] by blast
    qed
  qed
qed

text \<open>
  The loop leaves \<open>lo\<close> where it started only after the prefix one longer was measured
  and found too wide. No assumption on the measurement is needed.
\<close>

lemma bsearch_stuck:
  "lo < hi \<Longrightarrow> bsearch m width toks lo hi = lo \<Longrightarrow> width < m (join_sp (take (Suc lo) toks))"
proof (induction m width toks lo hi rule: bsearch.induct)
  case (1 m width toks lo hi)
  let ?mid = "(lo + hi + 1) div 2"
  have lt: "lo < hi" by (rule "1.prems"(1))
  have mid: "lo < ?mid" "?mid \<le> hi" using lt by linarith+
  show ?case
  proof (cases "m (join_sp (take ?mid toks)) \<le> width")
    case fits: True
    have "?mid \<le> bsearch m width toks ?mid hi"
      using bsearch_bounds[of ?mid hi m width toks] mid by blast
    with "1.prems"(2) mid show ?thesis
      unfolding bsearch_fit[where lo=lo and hi=hi and m=m and toks=toks and width=width, OF lt fits]
      by linarith
  next
    case over: False
    have eq: "bsearch m width toks lo (?mid - 1) = lo"
      using "1.prems"(2)
      unfolding bsearch_over[where lo=lo and hi=hi and m=m and toks=toks and width=width, OF lt over] .
    show ?thesis
    proof (cases "lo < ?mid - 1")
      case True
      from "1.IH"(2)[OF lt refl refl refl over True eq] show ?thesis .
    next
      case False
      with mid have "?mid = Suc lo" by linarith
      with over show ?thesis by simp
    qed
  qed
qed

lemma bsearch_single_oversize: "width < m tok \<Longrightarrow> bsearch m width [tok] 0 (Suc 0) = 0"
  by (simp add: bsearch_over bsearch_done)

text \<open>
  A word list that the step hands on unchanged is handed on forever: the list is never
  finished.
\<close>

lemma break_fix_stuck:
  assumes "toks \<noteq> []" and "snd (break_fix_step m width toks) = toks"
  shows "break_fix m width (PList toks) = None"
proof -
  have "\<not> (m1 = m \<and> width1 = width \<and> arg = PList toks)"
    if r: "break_fix m1 width1 arg = Some segs" for m1 width1 arg segs
  proof (rule break_fix.raw_induct[where P = "\<lambda>m1 width1 arg segs. \<not> (m1 = m \<and> width1 = width \<and> arg = PList toks)", OF _ r], goal_cases)
    case (1 bf m1 width1 arg segs)
    show ?case
    proof
      assume a: "m1 = m \<and> width1 = width \<and> arg = PList toks"
      obtain seg where st: "break_fix_step m width toks = (seg, toks)"
        using assms(2) by (cases "break_fix_step m width toks") auto
      from 1(2) a assms(1) st obtain more where "bf m width (PList toks) = Some more"
        by (auto split: bind_splits)
      from 1(1)[OF this] show False by simp
    qed
  qed
  then show ?thesis by (cases "break_fix m width (PList toks)") auto
qed

lemma break_fix_single_oversize:
  assumes "width < m tok"
  shows "break_fix_step m width [tok] = (([], m []), [tok])"
    and "break_fix m width (PList [tok]) = None"
proof -
  show st: "break_fix_step m width [tok] = (([], m []), [tok])"
    using assms by (simp add: break_fix_step_def bsearch_single_oversize)
  show "break_fix m width (PList [tok]) = None"
    by (rule break_fix_stuck) (simp_all add: st)
qed

lemma break_fix_Nil: "break_fix m width (PList []) = Some []"
  by (subst break_fix.simps) simp

lemma break_fix_falsy: "\<not> truthy arg \<Longrightarrow> break_fix m width arg = Some []"
  by (subst break_fix.simps) simp

lemma break_fix_PStr:
  "s \<noteq> [] \<Longrightarrow> split s \<noteq> [] \<Longrightarrow> break_fix m width (PStr s) = break_fix m width (PList (split s))"
  by (subst break_fix.simps, subst (2) break_fix.simps) simp

lemma break_fix_Cons:
  "toks \<noteq> [] \<Longrightarrow> break_fix_step m width toks = (seg, rest) \<Longrightarrow>
   break_fix m width (PList toks) = Option.bind (break_fix m width (PList rest)) (\<lambda>more. Some (seg # more))"
  by (subst break_fix.simps) simp

text \<open>
  When every word fits the budget on its own, the list is finished: the words are cut
  into non-empty chunks, in order, and each chunk fits the budget.
\<close>

lemma break_fix_fits:
  "\<forall>t \<in> set toks. m t \<le> width \<Longrightarrow>
   \<exists>chunks. break_fix m width (PList toks) = Some (map (segment m) chunks) \<and>
            concat chunks = toks \<and> (\<forall>c \<in> set chunks. c \<noteq> [] \<and> m (join_sp c) \<le> width)"
proof (induction toks rule: length_induct)
  case (1 toks)
  show ?case
  proof (cases "toks = []")
    case True
    then have "break_fix m width (PList toks) = Some (map (segment m) [])"
      by (simp add: break_fix_Nil)
    with True show ?thesis by fastforce
  next
    case False
    define lo where "lo = bsearch m width toks 0 (length toks)"
    have len: "0 < length toks" using False by simp
    have "join_sp (take (Suc 0) toks) = hd toks" using False by (cases toks) simp_all
    moreover have "m (hd toks) \<le> width" using False "1.prems" by simp
    ultimately have "lo \<noteq> 0"
      using bsearch_stuck[OF len, of m width toks] unfolding lo_def by force
    moreover have "lo \<le> length toks"
      using bsearch_bounds[of 0 "length toks" m width toks] unfolding lo_def by simp
    moreover have "m (join_sp (take lo toks)) \<le> width"
      using bsearch_fits[of m width toks 0 "length toks"] \<open>lo \<noteq> 0\<close> unfolding lo_def by blast
    ultimately have lo: "0 < lo" "lo \<le> length toks" "m (join_sp (take lo toks)) \<le> width"
      by simp_all
    have "length (drop lo toks) < length toks" using lo len by simp
    moreover have "\<forall>t \<in> set (drop lo toks). m t \<le> width"
      using "1.prems" by (meson in_set_dropD)
    ultimately obtain chunks where ch:
      "break_fix m width (PList (drop lo toks)) = Some (map (segment m) chunks)"
      "concat chunks = drop lo toks" "\<forall>c \<in> set chunks. c \<noteq> [] \<and> m (join_sp c) \<le> width"
      using "1.IH" by blast
    have "break_fix_step m width toks = (segment m (take lo toks), drop lo toks)"
      by (simp add: break_fix_step_def Let_def lo_def segment_def)
    from break_fix_Cons[OF False this] ch(1)
    have "break_fix m width (PList toks) = Some (map (segment m) (take lo toks # chunks))"
      by simp
    moreover have "concat (take lo toks # chunks) = toks" using ch(2) by simp
    moreover have "\<forall>c \<in> set (take lo toks # chunks). c \<noteq> [] \<and> m (join_sp c) \<le> width"
      using ch(3) lo False by auto
    ultimately show ?thesis by blast
  qed
qed

text \<open>Splitting undoes joining, on words as \<open>str.split()\<close> produces them.\<close>

lemma split_from_word:
  "\<forall>c \<in> set w. \<not> is_space c \<Longrightarrow> split_from cur (w @ rest) = split_from (cur @ w) rest"
  by (induction w arbitrary: cur) auto

lemma split_from_wordlike:
  "t \<in> set (split_from cur s) \<Longrightarrow> \<forall>c \<in> set cur. \<not> is_space c \<Longrightarrow> wordlike t"
proof (induction cur s rule: split_from.induct)
  case (1 cur)
  then show ?case by (simp add: wordlike_def split: if_splits)
next
  case (2 cur c cs)
  show ?case
  proof (cases "is_space c")
    case sp: True
    show ?thesis
    proof (cases "cur = []")
      case True
      with sp 2 show ?thesis by simp
    next
      case False
      with sp "2.prems" have "t = cur \<or> t \<in> set (split_from [] cs)" by simp
      then show ?thesis
      proof
        assume "t = cur"
        with False "2.prems"(2) show ?thesis by (simp add: wordlike_def)
      next
        assume "t \<in> set (split_from [] cs)"
        with "2.IH"(2)[OF sp False] show ?thesis by simp
      qed
    qed
  next
    case False
    with "2.prems" have "t \<in> set (split_from (cur @ [c]) cs)" by simp
    moreover have "\<forall>a \<in> set (cur @ [c]). \<not> is_space a" using False "2.prems"(2) by simp
    ultimately show ?thesis using "2.IH"(3)[OF False] by blast
  qed
qed

lemma split_wordlike: "t \<in> set (split s) \<Longrightarrow> wordlike t"
  unfolding split_def by (rule split_from_wordlike) auto

lemma space_is_space: "is_space CHR '' ''"
  by (simp add: is_space_def)

lemma split_join: "\<forall>t \<in> set c. wordlike t \<Longrightarrow> split (join_sp c) = c"
proof (induction c rule: join_sp.induct)
  case 1
  then show ?case by (simp add: split_def)
next
  case (2 x)
  then have "split_from [] (x @ []) = split_from ([] @ x) []"
    by (intro split_from_word) (simp add: wordlike_def)
  with 2 show ?case by (simp add: split_def wordlike_def)
next
  case (3 x y ys)
  then have x: "x \<noteq> []" "\<forall>c \<in> set x. \<not> is_space c" by (simp_all add: wordlike_def)
  have "split_from [] (x @ '' '' @ join_sp (y # ys)) =
        split_from ([] @ x) ('' '' @ join_sp (y # ys))"
    using x(2) by (rule split_from_word)
  also have "\<dots> = x # split_from [] (join_sp (y # ys))"
    using x(1) by (simp add: space_is_space)
  finally show ?case using 3 by (simp add: split_def)
qed

lemma split_blank: "\<forall>c \<in> set s. is_space c \<Longrightarrow> split s = []"
  unfolding split_def by (induction s) auto

text \<open>
  For a text all of whose words fit the budget, the segments of \<open>_break_fix\<close>, split
  again into words and concatenated, are the words of the text, and every segment
  carries its measured width, which is within the budget.
\<close>

lemma break_fix_all_fit:
  assumes "split s \<noteq> []" and "\<forall>t \<in> set (split s). m t \<le> width"
  shows "\<exists>segs. break_fix m width (PStr s) = Some segs \<and>
                concat (map (\<lambda>(t, w). split t) segs) = split s \<and>
                (\<forall>(t, w) \<in> set segs. w = m t \<and> w \<le> width \<and> t \<noteq> [])"
proof -
  have s: "s \<noteq> []" using assms(1) by (auto simp: split_def)
  obtain chunks where ch:
    "break_fix m width (PList (split s)) = Some (map (segment m) chunks)"
    "concat chunks = split s" "\<forall>c \<in> set chunks. c \<noteq> [] \<and> m (join_sp c) \<le> width"
    using break_fix_fits[OF assms(2)] by blast
  have words: "\<forall>c \<in> set chunks. \<forall>t \<in> set c. wordlike t"
  proof (intro ballI)
    fix c t assume "c \<in> set chunks" "t \<in> set c"
    then have "t \<in> set (concat chunks)" by auto
    then show "wordlike t" unfolding ch(2) by (rule split_wordlike)
  qed
  have "map (\<lambda>(t, w). split t) (map (segment m) chunks) = chunks"
    using words by (induction chunks) (simp_all add: segment_def split_join)
  then have "concat (map (\<lambda>(t, w). split t) (map (segment m) chunks)) = split s"
    using ch(2) by simp
  moreover have "\<forall>(t, w) \<in> set (map (segment m) chunks). w = m t \<and> w \<le> width \<and> t \<noteq> []"
  proof -
    have "join_sp c \<noteq> []" if "c \<in> set chunks" for c
    proof -
      have "c \<noteq> []" using that ch(3) by blast
      then obtain x xs where c: "c = x # xs" by (cases c) auto
      with that words have "x \<noteq> []" by (auto simp: wordlike_def)
      then show ?thesis unfolding c by (cases xs) simp_all
    qed
    with ch(3) show ?thesis by (auto simp: segment_def)
  qed
  ultimately show ?thesis using ch(1) break_fix_PStr[OF s assms(1)] by auto
qed


section \<open>Facts about the text renderers\<close>

lemma paint_on_Nil: "paint_on img [] = img"
  by (cases img) (simp add: paint_on_def)

lemma paint_on_paint_on: "paint_on (paint_on img ps) qs = paint_on img (ps @ qs)"
  by (simp add: paint_on_def)

lemma paint_on_size:
  "img_width (paint_on img ps) = img_width img \<and> img_height (paint_on img ps) = img_height img"
  by (simp add: paint_on_def)

lemma draw_line_paint:
  "draw_line img x sh tc sc fnt y t = paint_on img (line_paint x sh tc sc fnt y t)"
  by (simp add: draw_line_def line_paint_def draw_text_def paint_on_paint_on)

text \<open>The loop draws line \<open>i\<close> at \<open>y + i * font_size\<close> and adds \<open>font_size\<close> per line.\<close>

lemma draw_pieces_paint:
  "draw_pieces x sh tc sc fnt fs pieces (img, y, h) =
     (paint_on img (lines_paint x sh tc sc fnt fs y pieces),
      y + int (length pieces) * fs, h + int (length pieces) * fs)"
proof (induction pieces arbitrary: img y h)
  case Nil
  then show ?case by (simp add: paint_on_Nil)
next
  case (Cons p pieces)
  obtain t w where p: "p = (t, w)" by (cases p)
  show ?case
    unfolding p by (simp add: Cons.IH draw_line_paint paint_on_paint_on algebra_simps)
qed

lemma lines_paint_last:
  "pieces \<noteq> [] \<Longrightarrow>
   last (lines_paint x sh tc sc fnt fs y pieces) =
     Text x (y + (int (length pieces) - 1) * fs) (fst (last pieces)) tc fnt"
proof (induction pieces arbitrary: y)
  case Nil
  then show ?case by simp
next
  case (Cons p pieces)
  obtain t w where p: "p = (t, w)" by (cases p)
  show ?case
  proof (cases "pieces = []")
    case True
    then show ?thesis unfolding p by (simp add: line_paint_def)
  next
    case False
    then have ne: "lines_paint x sh tc sc fnt fs (y + fs) pieces \<noteq> []"
      by (cases pieces) (auto simp: line_paint_def)
    show ?thesis
      unfolding p using False ne Cons.IH[OF False, of "y + fs"]
      by (simp add: algebra_simps)
  qed
qed

lemma fit_text_top_down_Some:
  "break_fix (tlen fnt) (img_width img - xs - xe - sh) arg = Some pieces \<Longrightarrow>
   fit_text_top_down tlen img arg tc sc fnt y fs xs xe sh =
     Inr (paint_on img (lines_paint xs sh tc sc fnt fs y pieces), int (length pieces) * fs)"
  by (simp add: fit_text_top_down_def draw_pieces_paint)

lemma fit_text_bottom_up_Some:
  "break_fix (tlen fnt) (img_width img - xs - xe - sh) arg = Some pieces \<Longrightarrow>
   fit_text_bottom_up tlen img arg tc sc fnt y fs xs xe sh =
     Inr (paint_on img (lines_paint xs sh tc sc fnt fs
            (if length pieces > 1 then y - (int (length pieces) - 1) * fs else y) pieces),
          int (length pieces) * fs)"
  by (simp add: fit_text_bottom_up_def draw_pieces_paint Let_def)


section \<open>The claims about TextFlow and the text renderers\<close>

text \<open>
  C1 (the code does otherwise). The claim: a single token wider than the budget is
  still emitted alone, and the procedure terminates. Evaluated on the text \<open>ab\<close> with
  budget 1 and one pixel per character: the step yields the empty segment and hands the
  same one-word list to the recursive call, so the list of segments is never finished
  and the token is never emitted.
\<close>

theorem C1_oversize_token_never_emitted:
  "break_fix_step mono_width 1 [''ab''] = (([], 0), [''ab'']) \<and>
   break_fix mono_width 1 (PStr ''ab'') = None"
proof -
  have sp: "split ''ab'' = [''ab'']" by (simp add: split_def is_space_def)
  have w: "(1::int) < mono_width ''ab''" by (simp add: mono_width_def)
  have "break_fix mono_width 1 (PStr ''ab'') = break_fix mono_width 1 (PList [''ab''])"
    using break_fix_PStr[of "''ab''" mono_width 1] sp by simp
  with w break_fix_single_oversize[where m=mono_width and width=1 and tok="''ab''"]
  show ?thesis by (simp add: mono_width_def)
qed

text \<open>
  C2 (the code does otherwise). The claim: for every token sequence and monotonic
  measurement, the segments reproduce the tokens and no segment exceeds the budget
  unless it is a single token that alone exceeds it. Evaluated on the text
  \<open>a bbbb c\<close> with budget 3 and one pixel per character: after the segment \<open>a\<close> the
  step yields the empty segment and hands \<open>[bbbb, c]\<close> on unchanged, so no list of
  segments is produced. (For texts all of whose words fit, \<open>break_fix_all_fit\<close> above
  proves what the claim says.)
\<close>

theorem C2_oversize_token_blocks_the_rest:
  "break_fix_step mono_width 3 [''a'', ''bbbb'', ''c''] = ((''a'', 1), [''bbbb'', ''c'']) \<and>
   break_fix_step mono_width 3 [''bbbb'', ''c''] = (([], 0), [''bbbb'', ''c'']) \<and>
   break_fix mono_width 3 (PStr ''a bbbb c'') = None"
proof -
  have sp: "split ''a bbbb c'' = [''a'', ''bbbb'', ''c'']" by (simp add: split_def is_space_def)
  have s1: "break_fix_step mono_width 3 [''a'', ''bbbb'', ''c''] = ((''a'', 1), [''bbbb'', ''c''])"
    by (simp add: break_fix_step_def bsearch.simps mono_width_def Let_def)
  have s2: "break_fix_step mono_width 3 [''bbbb'', ''c''] = (([], 0), [''bbbb'', ''c''])"
    by (simp add: break_fix_step_def bsearch.simps mono_width_def Let_def)
  have "break_fix mono_width 3 (PList [''bbbb'', ''c'']) = None"
    by (rule break_fix_stuck) (simp_all add: s2)
  then have "break_fix mono_width 3 (PList [''a'', ''bbbb'', ''c'']) = None"
    using break_fix_Cons[OF _ s1] by simp
  then have "break_fix mono_width 3 (PStr ''a bbbb c'') = None"
    using break_fix_PStr[of "''a bbbb c''" mono_width 3] sp by simp
  with s1 s2 show ?thesis by simp
qed

text \<open>
  C6. For a text that wraps into \<open>N \<ge> 1\<close> lines, \<open>_fit_text_bottom_up\<close> anchored at
  \<open>Y\<close> with line height \<open>H\<close> draws the lines from \<open>Y - (N - 1) * H\<close> downwards, one
  per \<open>H\<close>; the last thing drawn is the last line, at exactly \<open>Y\<close>; the height
  returned is \<open>N * H\<close>.
\<close>

theorem C6_bottom_up_last_line_at_anchor:
  assumes "break_fix (tlen fnt) (img_width img - xs - xe - sh) arg = Some pieces"
    and "pieces \<noteq> []"
  shows "fit_text_bottom_up tlen img arg tc sc fnt Y H xs xe sh =
           Inr (paint_on img
                  (lines_paint xs sh tc sc fnt H (Y - (int (length pieces) - 1) * H) pieces),
                int (length pieces) * H) \<and>
         last (lines_paint xs sh tc sc fnt H (Y - (int (length pieces) - 1) * H) pieces) =
           Text xs Y (fst (last pieces)) tc fnt"
proof -
  have "(if length pieces > 1 then Y - (int (length pieces) - 1) * H else Y) =
        Y - (int (length pieces) - 1) * H"
    using assms(2) by (cases pieces) auto
  then have "fit_text_bottom_up tlen img arg tc sc fnt Y H xs xe sh =
           Inr (paint_on img
                  (lines_paint xs sh tc sc fnt H (Y - (int (length pieces) - 1) * H) pieces),
                int (length pieces) * H)"
    using assms(1)
      fit_text_bottom_up_Some[where tlen=tlen and fnt=fnt and img=img and xs=xs and xe=xe
        and sh=sh and arg=arg and pieces=pieces and tc=tc and sc=sc and y=Y and fs=H]
    by simp
  moreover have "last (lines_paint xs sh tc sc fnt H (Y - (int (length pieces) - 1) * H) pieces) =
           Text xs Y (fst (last pieces)) tc fnt"
    using lines_paint_last[OF assms(2), of xs sh tc sc fnt H "Y - (int (length pieces) - 1) * H"]
    by simp
  ultimately show ?thesis by simp
qed

theorem C6_bottom_up_last_line_at_anchor_witness:
  "break_fix mono_width 5 (PStr ''ab cd efg h'') = Some [(''ab cd'', 5), (''efg h'', 5)] \<and>
   fit_text_bottom_up (\<lambda>f. mono_width) (Image 15 448 []) (PStr ''ab cd efg h'') ''white'' ''black''
       (''font.ttf'', 45) 400 45 5 5 0 =
     Inr (Image 15 448 [Text 5 355 ''ab cd'' ''white'' (''font.ttf'', 45),
                        Text 5 400 ''efg h'' ''white'' (''font.ttf'', 45)], 90)"
proof -
  have bf: "break_fix mono_width 5 (PStr ''ab cd efg h'') = Some [(''ab cd'', 5), (''efg h'', 5)]"
    by (simp add: break_fix.simps break_fix_step_def bsearch.simps split_def is_space_def
          mono_width_def Let_def)
  have bf': "break_fix ((\<lambda>f. mono_width) (''font.ttf'', 45)) (img_width (Image 15 448 []) - 5 - 5 - 0)
               (PStr ''ab cd efg h'') = Some [(''ab cd'', 5), (''efg h'', 5)]"
    using bf by simp
  show ?thesis
    using C6_bottom_up_last_line_at_anchor[where tc="''white''" and sc="''black''" and Y=400
            and H=45, OF bf'] bf
    by (simp add: paint_on_def line_paint_def)
qed

text \<open>
  C10. A non-empty text of whitespace only (no-break spaces included) gives exactly one
  segment, with the empty string as its text, and both renderers draw that empty line
  and return one line height; the empty string and \<open>None\<close> give no segment and
  height 0.
\<close>

theorem C10_blank_text_takes_one_line:
  assumes "s \<noteq> []" and "\<forall>c \<in> set s. is_space c"
  shows "break_fix m width (PStr s) = Some [([], m [])] \<and>
         fit_text_top_down tlen img (PStr s) tc sc fnt y font_size xs xe sh =
           Inr (draw_line img xs sh tc sc fnt y [], font_size) \<and>
         fit_text_bottom_up tlen img (PStr s) tc sc fnt y font_size xs xe sh =
           Inr (draw_line img xs sh tc sc fnt y [], font_size) \<and>
         break_fix m width (PStr []) = Some [] \<and> break_fix m width PNone = Some [] \<and>
         fit_text_top_down tlen img (PStr []) tc sc fnt y font_size xs xe sh = Inr (img, 0) \<and>
         fit_text_bottom_up tlen img (PStr []) tc sc fnt y font_size xs xe sh = Inr (img, 0) \<and>
         fit_text_top_down tlen img PNone tc sc fnt y font_size xs xe sh = Inr (img, 0) \<and>
         fit_text_bottom_up tlen img PNone tc sc fnt y font_size xs xe sh = Inr (img, 0)"
proof -
  have blank: "break_fix m' width' (PStr s) = Some [([], m' [])]" for m' width'
  proof -
    have "break_fix_step m' width' (split s) = (([], m' []), [])"
      using split_blank[OF assms(2)] by (simp add: break_fix_step_def bsearch_done)
    then show ?thesis
      using assms(1) by (subst break_fix.simps) (simp add: break_fix_Nil)
  qed
  have e1: "break_fix m' width' (PStr []) = Some []" for m' width'
    by (simp add: break_fix_falsy)
  have e2: "break_fix m' width' PNone = Some []" for m' width'
    by (simp add: break_fix_falsy)
  show ?thesis
    by (simp add: blank e1 e2 fit_text_top_down_def fit_text_bottom_up_def Let_def)
qed

theorem C10_blank_text_takes_one_line_witness:
  "break_fix mono_width 100 (PStr [CHR 0xA0, CHR '' '']) = Some [([], 0)] \<and>
   fit_text_top_down (\<lambda>f. mono_width) (Image 600 448 []) (PStr [CHR 0xA0, CHR '' ''])
       ''white'' ''black'' (''font.ttf'', 45) 300 45 5 5 0 =
     Inr (Image 600 448 [Text 5 300 [] ''white'' (''font.ttf'', 45)], 45) \<and>
   fit_text_top_down (\<lambda>f. mono_width) (Image 600 448 []) (PStr []) ''white'' ''black''
       (''font.ttf'', 45) 300 45 5 5 0 = Inr (Image 600 448 [], 0)"
  using C10_blank_text_takes_one_line[of "[CHR 0xA0, CHR '' '']" mono_width 100 "\<lambda>f. mono_width"
          "Image 600 448 []" "''white''" "''black''" "(''font.ttf'', 45)" 300 45 5 5 0]
  by (simp add: is_space_def mono_width_def draw_line_def draw_text_def paint_on_def)


section \<open>IdleGallery\<close>

lemma get_idle_image_path_cycle:
  "idle_images cfg \<noteq> [] \<Longrightarrow> \<not> idle_shuffle cfg \<Longrightarrow> idle_index s < length (idle_images cfg) \<Longrightarrow>
   get_idle_image_path env cfg s =
     (Inr (idle_images cfg ! idle_index s),
      s\<lparr>idle_index := (idle_index s + 1) mod length (idle_images cfg)\<rparr>)"
  by (simp add: get_idle_image_path_def)

text \<open>
  With shuffle off, \<open>n\<close> selections from cursor \<open>i\<close> return the elements at
  \<open>i, i + 1, \<dots>\<close> modulo the size of the set, and leave the cursor at \<open>i + n\<close> modulo
  the size.
\<close>

lemma select_paths_cycle:
  "idle_images cfg \<noteq> [] \<Longrightarrow> \<not> idle_shuffle cfg \<Longrightarrow> idle_index s < length (idle_images cfg) \<Longrightarrow>
   select_paths env cfg n s =
     (map (\<lambda>j. Inr (idle_images cfg ! ((idle_index s + j) mod length (idle_images cfg)))) [0..<n],
      s\<lparr>idle_index := (idle_index s + n) mod length (idle_images cfg)\<rparr>)"
proof (induction n arbitrary: s)
  case 0
  then show ?case by simp
next
  case (Suc n)
  let ?K = "length (idle_images cfg)"
  let ?s1 = "s\<lparr>idle_index := (idle_index s + 1) mod ?K\<rparr>"
  have K: "0 < ?K" using Suc.prems(1) by simp
  have step: "get_idle_image_path env cfg s = (Inr (idle_images cfg ! idle_index s), ?s1)"
    using Suc.prems by (rule get_idle_image_path_cycle)
  have i1: "idle_index ?s1 < ?K" using K by simp
  have rest: "select_paths env cfg n ?s1 =
     (map (\<lambda>j. Inr (idle_images cfg ! ((idle_index ?s1 + j) mod ?K))) [0..<n],
      ?s1\<lparr>idle_index := (idle_index ?s1 + n) mod ?K\<rparr>)"
    using Suc.IH[OF Suc.prems(1) Suc.prems(2) i1] .
  have shift: "((idle_index s + 1) mod ?K + j) mod ?K = (idle_index s + Suc j) mod ?K" for j
    by (simp add: mod_add_left_eq)
  have unfold: "select_paths env cfg (Suc n) s =
     (Inr (idle_images cfg ! idle_index s) #
        map (\<lambda>j. Inr (idle_images cfg ! ((idle_index ?s1 + j) mod ?K))) [0..<n],
      ?s1\<lparr>idle_index := (idle_index ?s1 + n) mod ?K\<rparr>)"
    by (simp only: select_paths.simps step rest prod.case)
  have paths: "map (\<lambda>j. Inr (idle_images cfg ! ((idle_index s + j) mod ?K))) [0..<Suc n] =
           Inr (idle_images cfg ! idle_index s) #
           map (\<lambda>j. Inr (idle_images cfg ! ((idle_index ?s1 + j) mod ?K))) [0..<n]"
    (is "map ?f _ = _")
  proof -
    have "[0..<Suc n] = 0 # map Suc [0..<n]" by (simp add: upt_conv_Cons map_Suc_upt)
    then have "map ?f [0..<Suc n] = ?f 0 # map (?f \<circ> Suc) [0..<n]" by simp
    moreover have "?f 0 = Inr (idle_images cfg ! idle_index s)" using Suc.prems(3) by simp
    moreover have "(?f \<circ> Suc) j = Inr (idle_images cfg ! ((idle_index ?s1 + j) mod ?K))" for j
      using shift[of j] by simp
    ultimately show ?thesis by simp
  qed
  have final: "?s1\<lparr>idle_index := (idle_index ?s1 + n) mod ?K\<rparr> =
               s\<lparr>idle_index := (idle_index s + Suc n) mod ?K\<rparr>"
    using shift[of n] by simp
  show ?case unfolding unfold paths final ..
qed

lemma select_paths_append:
  "select_paths env cfg (a + b) s =
     (case select_paths env cfg a s of
        (rs, s1) \<Rightarrow> (case select_paths env cfg b s1 of (rs', s2) \<Rightarrow> (rs @ rs', s2)))"
  by (induction a arbitrary: s) (auto split: prod.splits)

lemma select_paths_round:
  assumes "idle_images cfg \<noteq> []" and "\<not> idle_shuffle cfg" and "idle_index s = 0"
  shows "select_paths env cfg (length (idle_images cfg)) s = (map Inr (idle_images cfg), s)"
proof -
  let ?K = "length (idle_images cfg)"
  have i: "idle_index s < ?K" using assms(1,3) by simp
  have "map (\<lambda>j. Inr (idle_images cfg ! ((idle_index s + j) mod ?K))) [0..<?K] =
        map (\<lambda>j. Inr (idle_images cfg ! j)) [0..<?K]"
    using assms(3) by simp
  also have "\<dots> = map Inr (map (\<lambda>j. idle_images cfg ! j) [0..<?K])" by simp
  also have "\<dots> = map Inr (idle_images cfg)" by (simp only: map_nth)
  finally have paths: "map (\<lambda>j. Inr (idle_images cfg ! ((idle_index s + j) mod ?K))) [0..<?K] =
        map Inr (idle_images cfg)" .
  have "s\<lparr>idle_index := (idle_index s + ?K) mod ?K\<rparr> = s" using assms(3) by simp
  with paths select_paths_cycle[OF assms(1) assms(2) i, of env ?K] show ?thesis by simp
qed

text \<open>
  What \<open>_get_idle_image\<close> returns is what \<open>Image.open\<close> makes of the selected path.
\<close>

lemma select_images_paths:
  "select_images env cfg n s =
     (map (\<lambda>r. case r of Inl e \<Rightarrow> Inl e | Inr img_path \<Rightarrow> open_image env img_path)
        (fst (select_paths env cfg n s)),
      snd (select_paths env cfg n s))"
proof (induction n arbitrary: s)
  case 0
  then show ?case by simp
next
  case (Suc n)
  obtain r s1 where p: "get_idle_image_path env cfg s = (r, s1)"
    by (cases "get_idle_image_path env cfg s")
  have g: "get_idle_image env cfg s =
           ((case r of Inl e \<Rightarrow> Inl e | Inr img_path \<Rightarrow> open_image env img_path), s1)"
    by (cases r) (simp_all add: get_idle_image_def p)
  show ?case
    by (simp add: p g Suc.IH split: prod.splits)
qed

text \<open>
  C7. With a non-empty image set of size \<open>K\<close>, shuffle off and the cursor at 0 (where
  \<open>__init__\<close> puts it), \<open>K\<close> calls of \<open>_get_idle_image\<close> in a row return the images
  opened from the paths of the set, every element once and in discovery order, and
  leave the state as it was; so the next \<open>K\<close> calls return the same sequence again.
\<close>

theorem C7_idle_round_robin:
  assumes "idle_images cfg \<noteq> []" and "\<not> idle_shuffle cfg" and "idle_index s = 0"
  shows "select_images env cfg (length (idle_images cfg)) s =
           (map (open_image env) (idle_images cfg), s) \<and>
         select_images env cfg (length (idle_images cfg) + length (idle_images cfg)) s =
           (map (open_image env) (idle_images cfg) @ map (open_image env) (idle_images cfg), s) \<and>
         select_paths env cfg (length (idle_images cfg)) s = (map Inr (idle_images cfg), s) \<and>
         select_paths env cfg (length (idle_images cfg) + length (idle_images cfg)) s =
           (map Inr (idle_images cfg) @ map Inr (idle_images cfg), s)"
proof -
  have r: "select_paths env cfg (length (idle_images cfg)) s = (map Inr (idle_images cfg), s)"
    using assms by (rule select_paths_round)
  then have r2: "select_paths env cfg (length (idle_images cfg) + length (idle_images cfg)) s =
           (map Inr (idle_images cfg) @ map Inr (idle_images cfg), s)"
    by (simp add: select_paths_append)
  have o: "map (\<lambda>r. case r of Inl e \<Rightarrow> Inl e | Inr img_path \<Rightarrow> open_image env img_path)
             (map Inr ps) = map (open_image env) ps" for ps
    by simp
  show ?thesis
    unfolding select_images_paths r r2 by (simp add: o)
qed

theorem C7_idle_round_robin_witness:
  "select_images example_env example_config 3 initial_state =
     ([Inr (Image 300 200 [Decoded ''a.png'']), Inr (Image 300 200 [Decoded ''b.jpg'']),
       Inr (Image 300 200 [Decoded ''c.jpeg''])], initial_state) \<and>
   select_images example_env example_config 6 initial_state =
     ([Inr (Image 300 200 [Decoded ''a.png'']), Inr (Image 300 200 [Decoded ''b.jpg'']),
       Inr (Image 300 200 [Decoded ''c.jpeg'']), Inr (Image 300 200 [Decoded ''a.png'']),
       Inr (Image 300 200 [Decoded ''b.jpg'']), Inr (Image 300 200 [Decoded ''c.jpeg''])],
      initial_state) \<and>
   fst (get_idle_image example_env example_config initial_state) =
     Inr (Image 300 200 [Decoded ''a.png'']) \<and>
   fst (get_idle_image example_env example_config
          (snd (get_idle_image example_env example_config initial_state))) =
     Inr (Image 300 200 [Decoded ''b.jpg''])"
proof -
  have imgs: "idle_images example_config = [''a.png'', ''b.jpg'', ''c.jpeg'']"
    by (simp add: example_config_def)
  have len: "length (idle_images example_config) = 3" by (simp add: imgs)
  have h1: "idle_images example_config \<noteq> []" by (simp add: imgs)
  have h2: "\<not> idle_shuffle example_config" by (simp add: example_config_def)
  have h3: "idle_index initial_state = 0" by (simp add: initial_state_def)
  have op: "open_image example_env p = Inr (Image 300 200 [Decoded p])" for p
    by (simp add: open_image_def example_env_def)
  note r = C7_idle_round_robin[OF h1 h2 h3, of example_env, unfolded len, unfolded imgs]
  have calls: "fst (get_idle_image example_env example_config initial_state) =
                 Inr (Image 300 200 [Decoded ''a.png'']) \<and>
               fst (get_idle_image example_env example_config
                      (snd (get_idle_image example_env example_config initial_state))) =
                 Inr (Image 300 200 [Decoded ''b.jpg''])"
    by (simp add: get_idle_image_def get_idle_image_path_def imgs h2 initial_state_def op)
  from r calls show ?thesis
    by (simp add: op del: select_images.simps select_paths.simps)
qed


section \<open>RefreshCounter\<close>

lemma refresh_and_show_below:
  "pic_counter s \<le> fallback 20 (cfg_display_refresh_counter cfg) \<Longrightarrow>
   trace (refresh_and_show cfg img s) = trace s @ [Show img] \<and>
   pic_counter (refresh_and_show cfg img s) = pic_counter s + 1"
  by (simp add: refresh_and_show_def display_image_def log_event_def Let_def)

lemma refresh_and_show_above:
  "fallback 20 (cfg_display_refresh_counter cfg) < pic_counter s \<Longrightarrow>
   trace (refresh_and_show cfg img s) = trace s @ [Clean, Show img] \<and>
   pic_counter (refresh_and_show cfg img s) = 1"
  by (simp add: refresh_and_show_def display_image_def display_clean_def log_event_def Let_def)

text \<open>As long as the counter stays within the limit, pushes only push.\<close>

lemma pushes_below:
  "pic_counter s + int (length imgs) \<le> fallback 20 (cfg_display_refresh_counter cfg) + 1 \<Longrightarrow>
   trace (pushes cfg imgs s) = trace s @ map Show imgs \<and>
   pic_counter (pushes cfg imgs s) = pic_counter s + int (length imgs)"
proof (induction imgs arbitrary: s)
  case Nil
  then show ?case by (simp add: pushes_def)
next
  case (Cons img imgs)
  let ?s1 = "refresh_and_show cfg img s"
  have "pic_counter s \<le> fallback 20 (cfg_display_refresh_counter cfg)"
    using Cons.prems by simp
  then have s1: "trace ?s1 = trace s @ [Show img]" "pic_counter ?s1 = pic_counter s + 1"
    using refresh_and_show_below[of s cfg img] by simp_all
  have "pic_counter ?s1 + int (length imgs) \<le> fallback 20 (cfg_display_refresh_counter cfg) + 1"
    using Cons.prems s1(2) by simp
  from Cons.IH[OF this] s1 have
    "trace (pushes cfg imgs ?s1) = trace s @ map Show (img # imgs) \<and>
     pic_counter (pushes cfg imgs ?s1) = pic_counter s + int (length (img # imgs))"
    by simp
  moreover have "pushes cfg (img # imgs) s = pushes cfg imgs ?s1" by (simp add: pushes_def)
  ultimately show ?case by simp
qed

text \<open>
  What the code does with threshold 20 and the counter at 0: the \<open>k\<close>-th push finds the
  counter at \<open>k - 1\<close>, so none of the first 21 pushes clears the display; the 22nd
  finds 21, clears, pushes, and leaves the counter at 1.
\<close>

lemma pushes_clear_after_21:
  assumes "fallback 20 (cfg_display_refresh_counter cfg) = 20"
    and "pic_counter s = 0" and "length imgs = 21"
  shows "(\<forall>k \<le> 21. trace (pushes cfg (take k imgs) s) = trace s @ map Show (take k imgs) \<and>
                   pic_counter (pushes cfg (take k imgs) s) = int k) \<and>
         trace (refresh_and_show cfg img (pushes cfg imgs s)) =
           trace s @ map Show imgs @ [Clean, Show img] \<and>
         pic_counter (refresh_and_show cfg img (pushes cfg imgs s)) = 1"
proof -
  have first: "trace (pushes cfg (take k imgs) s) = trace s @ map Show (take k imgs) \<and>
               pic_counter (pushes cfg (take k imgs) s) = int k" if "k \<le> 21" for k
  proof -
    have "length (take k imgs) = k" using that assms(3) by simp
    moreover have "pic_counter s + int (length (take k imgs))
                     \<le> fallback 20 (cfg_display_refresh_counter cfg) + 1"
      using that assms by simp
    ultimately show ?thesis using pushes_below[OF \<open>pic_counter s + _ \<le> _\<close>] assms(2) by simp
  qed
  have all: "trace (pushes cfg imgs s) = trace s @ map Show imgs"
            "pic_counter (pushes cfg imgs s) = 21"
    using first[of 21] assms(3) by simp_all
  have "fallback 20 (cfg_display_refresh_counter cfg) < pic_counter (pushes cfg imgs s)"
    using all(2) assms(1) by simp
  from refresh_and_show_above[OF this, of img] all first show ?thesis by simp
qed

text \<open>
  C3 (the code does otherwise). The claim, like the docstring of
  \<open>_display_update_process\<close> (\<open>Cleans after 'display_refresh_counter' cycles\<close>), has the
  21st push clear the display when the threshold is 20 and the counter starts at 0.
  Evaluated on 22 pushes of one frame: the counter is 20 before the check of the 21st
  push, which the test \<open>pic_counter > refresh_limit\<close> lets pass; after 21 pushes
  nothing has been cleared and the counter is 21; the clear comes with the 22nd push,
  before its frame, and the counter is 1 after it.
\<close>

theorem C3_no_clear_on_21st_push:
  "pic_counter (pushes example_config (replicate 20 example_frame) initial_state) = 20 \<and>
   Clean \<notin> set (trace (pushes example_config (replicate 21 example_frame) initial_state)) \<and>
   pic_counter (pushes example_config (replicate 21 example_frame) initial_state) = 21 \<and>
   trace (refresh_and_show example_config example_frame
            (pushes example_config (replicate 21 example_frame) initial_state)) =
     replicate 21 (Show example_frame) @ [Clean, Show example_frame] \<and>
   pic_counter (refresh_and_show example_config example_frame
                  (pushes example_config (replicate 21 example_frame) initial_state)) = 1"
proof -
  have l: "fallback 20 (cfg_display_refresh_counter example_config) = 20"
    by (simp add: example_config_def fallback_def)
  have c: "pic_counter initial_state = 0" by (simp add: initial_state_def)
  have n: "length (replicate 21 example_frame) = 21" by simp
  have "trace (pushes example_config (replicate 20 example_frame) initial_state) =
          trace initial_state @ map Show (replicate 20 example_frame) \<and>
        pic_counter (pushes example_config (replicate 20 example_frame) initial_state) =
          pic_counter initial_state + int (length (replicate 20 example_frame))"
    by (rule pushes_below) (simp add: l initial_state_def)
  moreover have "trace (pushes example_config (replicate 21 example_frame) initial_state) =
          trace initial_state @ map Show (replicate 21 example_frame) \<and>
        pic_counter (pushes example_config (replicate 21 example_frame) initial_state) =
          pic_counter initial_state + int (length (replicate 21 example_frame))"
    by (rule pushes_below) (simp add: l initial_state_def)
  moreover from pushes_clear_after_21[OF l c n, of example_frame]
  have "trace (refresh_and_show example_config example_frame
                  (pushes example_config (replicate 21 example_frame) initial_state)) =
           trace initial_state @ map Show (replicate 21 example_frame) @ [Clean, Show example_frame]"
    and "pic_counter (refresh_and_show example_config example_frame
                  (pushes example_config (replicate 21 example_frame) initial_state)) = 1"
    by simp_all
  ultimately show ?thesis by (auto simp: initial_state_def)
qed


section \<open>Facts about \<open>_get_song_info\<close>\<close>

lemma get_song_info_limit:
  "\<not> call_count s + 1 < 10 \<Longrightarrow> get_song_info env s = (Inr RNone, s)"
  by (subst get_song_info.simps) (simp add: Let_def)

lemma get_song_info_retry:
  "call_count s + 1 < 10 \<Longrightarrow>
   env_source env (polls s) = Unknown \<or> env_source env (polls s) = Malformed \<Longrightarrow>
   get_song_info env s =
     (case get_song_info env
             (s\<lparr>call_count := call_count s + 1, polls := polls s + 1,
                trace := trace s @ [SleepRetry]\<rparr>) of
        (Inl e, s3) \<Rightarrow> (Inl e, s3)
      | (Inr result, s3) \<Rightarrow> (Inr result, s3\<lparr>call_count := call_count s3 - 1\<rparr>))"
  by (subst get_song_info.simps) (auto simp: Let_def log_event_def)

lemma get_song_info_quiet:
  "call_count s + 1 < 10 \<Longrightarrow> quiet (env_source env (polls s)) \<Longrightarrow>
   get_song_info env s = (Inr REmpty, s\<lparr>polls := polls s + 1\<rparr>)"
  by (subst get_song_info.simps) (cases "env_source env (polls s)"; simp add: Let_def)

lemma get_song_info_track:
  "call_count s + 1 < 10 \<Longrightarrow> env_source env (polls s) = Track song artists cover_url \<Longrightarrow>
   get_song_info env s =
     (Inr (RTrack song cover_url (join_comma artists)), s\<lparr>polls := polls s + 1\<rparr>)"
  by (subst get_song_info.simps) (simp add: Let_def)

lemma get_song_info_episode:
  "call_count s + 1 < 10 \<Longrightarrow> env_source env (polls s) = Episode song artist cover_url \<Longrightarrow>
   get_song_info env s = (Inr (RTrack song cover_url artist), s\<lparr>polls := polls s + 1\<rparr>)"
  by (subst get_song_info.simps) (simp add: Let_def)

lemma get_song_info_broken:
  "call_count s + 1 < 10 \<Longrightarrow> env_source env (polls s) = Broken \<Longrightarrow>
   get_song_info env s =
     (Inl SourceError, s\<lparr>call_count := call_count s + 1, polls := polls s + 1\<rparr>)"
  by (subst get_song_info.simps) (simp add: Let_def)

lemma get_song_info_playing:
  "call_count s + 1 < 10 \<Longrightarrow> playing (env_source env (polls s)) \<Longrightarrow>
   \<exists>song cover_url artist.
     get_song_info env s = (Inr (RTrack song cover_url artist), s\<lparr>polls := polls s + 1\<rparr>)"
  by (cases "env_source env (polls s)") (simp_all add: get_song_info_track get_song_info_episode)

lemma builds_append: "builds (xs @ ys) = builds xs @ builds ys"
  by (simp add: builds_def)

text \<open>
  A poll touches only the call count, the number of answers taken and the trace, to
  which it adds nothing but retry sleeps; it takes at most \<open>9 - count\<close> answers.
\<close>

lemma get_song_info_frame:
  "song_prev (snd (get_song_info env s)) = song_prev s \<and>
   pic_counter (snd (get_song_info env s)) = pic_counter s \<and>
   idle_index (snd (get_song_info env s)) = idle_index s \<and>
   draws (snd (get_song_info env s)) = draws s \<and>
   builds (trace (snd (get_song_info env s))) = builds (trace s) \<and>
   polls (snd (get_song_info env s)) \<le> polls s + nat (9 - call_count s)"
proof (induction "nat (10 - call_count s)" arbitrary: s)
  case 0
  then have "\<not> call_count s + 1 < 10" by simp
  then show ?case by (simp add: get_song_info_limit)
next
  case (Suc n)
  show ?case
  proof (cases "call_count s + 1 < 10")
    case False
    then show ?thesis by (simp add: get_song_info_limit)
  next
    case True
    let ?s' = "s\<lparr>call_count := call_count s + 1, polls := polls s + 1,
                  trace := trace s @ [SleepRetry]\<rparr>"
    have n: "n = nat (10 - call_count ?s')" using Suc.hyps(2) by simp
    note IH = Suc.hyps(1)[OF n]
    have bound: "polls s + 1 \<le> polls s + nat (9 - call_count s)" using True by simp
    show ?thesis
    proof (cases "env_source env (polls s)")
      case Unknown
      then show ?thesis
        using IH True
        by (simp add: get_song_info_retry builds_append builds_def split: prod.splits sum.splits)
          (auto simp: nat_diff_distrib)
    next
      case Malformed
      then show ?thesis
        using IH True
        by (simp add: get_song_info_retry builds_append builds_def split: prod.splits sum.splits)
          (auto simp: nat_diff_distrib)
    next
      case Broken
      then show ?thesis using True bound by (simp add: get_song_info_broken)
    next
      case (Episode song artist cover_url)
      then show ?thesis using True bound by (simp add: get_song_info_episode)
    next
      case (Track song artists cover_url)
      then show ?thesis using True bound by (simp add: get_song_info_track)
    qed (use True bound in \<open>simp_all add: get_song_info_quiet\<close>)
  qed
qed

text \<open>A poll that returns leaves the call count as it found it.\<close>

lemma get_song_info_count:
  "get_song_info env s = (Inr r, s') \<Longrightarrow> call_count s' = call_count s"
proof (induction "nat (10 - call_count s)" arbitrary: s r s')
  case 0
  then have "\<not> call_count s + 1 < 10" by simp
  with 0 show ?case by (simp add: get_song_info_limit)
next
  case (Suc n)
  show ?case
  proof (cases "call_count s + 1 < 10")
    case False
    with Suc.prems show ?thesis by (simp add: get_song_info_limit)
  next
    case True
    let ?s' = "s\<lparr>call_count := call_count s + 1, polls := polls s + 1,
                  trace := trace s @ [SleepRetry]\<rparr>"
    have n: "n = nat (10 - call_count ?s')" using Suc.hyps(2) by simp
    have retry: "call_count s' = call_count s"
      if "env_source env (polls s) = Unknown \<or> env_source env (polls s) = Malformed"
    proof -
      obtain r1 s1 where g: "get_song_info env ?s' = (r1, s1)" by (cases "get_song_info env ?s'")
      with Suc.prems get_song_info_retry[OF True that] obtain r2 where
        r1: "r1 = Inr r2" and s': "s' = s1\<lparr>call_count := call_count s1 - 1\<rparr>"
        by (cases r1) auto
      from Suc.hyps(1)[OF n g[unfolded r1]] s' show ?thesis by simp
    qed
    show ?thesis
    proof (cases "env_source env (polls s)")
      case Unknown
      then show ?thesis using retry by simp
    next
      case Malformed
      then show ?thesis using retry by simp
    next
      case Broken
      then show ?thesis using True Suc.prems by (simp add: get_song_info_broken)
    next
      case (Episode song artist cover_url)
      then show ?thesis using True Suc.prems by (auto simp: get_song_info_episode)
    next
      case (Track song artists cover_url)
      then show ?thesis using True Suc.prems by (auto simp: get_song_info_track)
    qed (use True Suc.prems in \<open>auto simp: get_song_info_quiet\<close>)
  qed
qed

text \<open>
  Retries: when the source says \<open>unknown\<close> until the limiter cuts in, the poll returns
  \<open>None\<close>; when a track comes before that, the same poll returns it.
\<close>

lemma get_song_info_exhaust:
  "\<forall>i<n. env_source env (polls s + i) = Unknown \<Longrightarrow> call_count s + int n = 9 \<Longrightarrow>
   get_song_info env s =
     (Inr RNone, s\<lparr>polls := polls s + n, trace := trace s @ replicate n SleepRetry\<rparr>)"
proof (induction n arbitrary: s)
  case 0
  then show ?case by (simp add: get_song_info_limit)
next
  case (Suc n)
  let ?s' = "s\<lparr>call_count := call_count s + 1, polls := polls s + 1,
                trace := trace s @ [SleepRetry]\<rparr>"
  have c: "call_count s + 1 < 10" using Suc.prems(2) by simp
  have u: "env_source env (polls s) = Unknown" using Suc.prems(1) by force
  have "\<forall>i<n. env_source env (polls ?s' + i) = Unknown"
  proof (intro allI impI)
    fix i assume "i < n"
    then have "env_source env (polls s + Suc i) = Unknown" using Suc.prems(1) by blast
    then show "env_source env (polls ?s' + i) = Unknown" by simp
  qed
  moreover have "call_count ?s' + int n = 9" using Suc.prems(2) by simp
  ultimately have "get_song_info env ?s' =
     (Inr RNone, ?s'\<lparr>polls := polls ?s' + n, trace := trace ?s' @ replicate n SleepRetry\<rparr>)"
    by (rule Suc.IH)
  then show ?case
    using get_song_info_retry[OF c disjI1[OF u]] by (simp add: replicate_app_Cons_same)
qed

lemma get_song_info_track_after:
  "\<forall>i<k. env_source env (polls s + i) = Unknown \<Longrightarrow>
   env_source env (polls s + k) = Track song artists cover_url \<Longrightarrow>
   call_count s + int k < 9 \<Longrightarrow>
   get_song_info env s =
     (Inr (RTrack song cover_url (join_comma artists)),
      s\<lparr>polls := polls s + k + 1, trace := trace s @ replicate k SleepRetry\<rparr>)"
proof (induction k arbitrary: s)
  case 0
  then show ?case by (simp add: get_song_info_track)
next
  case (Suc k)
  let ?s' = "s\<lparr>call_count := call_count s + 1, polls := polls s + 1,
                trace := trace s @ [SleepRetry]\<rparr>"
  have c: "call_count s + 1 < 10" using Suc.prems(3) by simp
  have u: "env_source env (polls s) = Unknown" using Suc.prems(1) by force
  have "\<forall>i<k. env_source env (polls ?s' + i) = Unknown"
  proof (intro allI impI)
    fix i assume "i < k"
    then have "env_source env (polls s + Suc i) = Unknown" using Suc.prems(1) by blast
    then show "env_source env (polls ?s' + i) = Unknown" by simp
  qed
  moreover have "env_source env (polls ?s' + k) = Track song artists cover_url"
    using Suc.prems(2) by simp
  moreover have "call_count ?s' + int k < 9" using Suc.prems(3) by simp
  ultimately have "get_song_info env ?s' =
     (Inr (RTrack song cover_url (join_comma artists)),
      ?s'\<lparr>polls := polls ?s' + k + 1, trace := trace ?s' @ replicate k SleepRetry\<rparr>)"
    by (rule Suc.IH)
  then show ?case
    using get_song_info_retry[OF c disjI1[OF u]] by (simp add: replicate_app_Cons_same)
qed


section \<open>Facts about \<open>_display_update_process\<close> and the loop\<close>

lemma get_idle_image_path_frame:
  "song_prev (snd (get_idle_image_path env cfg s)) = song_prev s \<and>
   pic_counter (snd (get_idle_image_path env cfg s)) = pic_counter s \<and>
   call_count (snd (get_idle_image_path env cfg s)) = call_count s \<and>
   polls (snd (get_idle_image_path env cfg s)) = polls s \<and>
   trace (snd (get_idle_image_path env cfg s)) = trace s"
  by (simp add: get_idle_image_path_def)

lemma get_idle_image_snd:
  "snd (get_idle_image env cfg s) = snd (get_idle_image_path env cfg s)"
  by (simp add: get_idle_image_def split: prod.splits sum.splits)

lemma build_frame_snd:
  "snd (build_frame env cfg song_request s) =
     (if song_truthy song_request then s else snd (get_idle_image_path env cfg s))"
  by (cases song_request)
    (simp_all add: build_frame_def get_idle_image_snd[symmetric] split: prod.splits sum.splits)

lemma build_frame_frame:
  "song_prev (snd (build_frame env cfg song_request s)) = song_prev s \<and>
   pic_counter (snd (build_frame env cfg song_request s)) = pic_counter s \<and>
   call_count (snd (build_frame env cfg song_request s)) = call_count s \<and>
   polls (snd (build_frame env cfg song_request s)) = polls s \<and>
   trace (snd (build_frame env cfg song_request s)) = trace s"
  by (simp add: build_frame_snd get_idle_image_path_frame)

lemma refresh_and_show_frame:
  "song_prev (refresh_and_show cfg img s) = song_prev s \<and>
   call_count (refresh_and_show cfg img s) = call_count s \<and>
   polls (refresh_and_show cfg img s) = polls s \<and>
   builds (trace (refresh_and_show cfg img s)) = builds (trace s)"
  by (simp add: refresh_and_show_def display_image_def display_clean_def log_event_def
        Let_def builds_def)

text \<open>
  \<open>_display_update_process\<close> is one frame build in the trace, whether it ends with a
  push or with an exception; it leaves the stored key, the call count and the source
  alone.
\<close>

lemma display_update_process_frame:
  "song_prev (snd (display_update_process env cfg r s)) = song_prev s \<and>
   call_count (snd (display_update_process env cfg r s)) = call_count s \<and>
   polls (snd (display_update_process env cfg r s)) = polls s \<and>
   builds (trace (snd (display_update_process env cfg r s))) = builds (trace s) @ [Build r]"
proof -
  let ?s0 = "log_event (Build r) s"
  obtain res s1 where b: "build_frame env cfg r ?s0 = (res, s1)"
    by (cases "build_frame env cfg r ?s0")
  from build_frame_frame[of env cfg r ?s0] b
  have s1: "song_prev s1 = song_prev s" "call_count s1 = call_count s" "polls s1 = polls s"
    "trace s1 = trace s @ [Build r]"
    by (simp_all add: log_event_def)
  then have b1: "builds (trace s1) = builds (trace s) @ [Build r]"
    by (simp add: builds_def)
  show ?thesis
  proof (cases res)
    case (Inl e)
    then show ?thesis using b s1 b1 by (simp add: display_update_process_def)
  next
    case (Inr img)
    then show ?thesis
      using b s1 b1 refresh_and_show_frame[of cfg img s1]
      by (simp add: display_update_process_def)
  qed
qed

lemma sleep_delay_frame:
  "song_prev (sleep_delay cfg s) = song_prev s \<and> call_count (sleep_delay cfg s) = call_count s \<and>
   polls (sleep_delay cfg s) = polls s \<and>
   builds (trace (sleep_delay cfg s)) = builds (trace s)"
  by (simp add: sleep_delay_def log_event_def builds_def)

lemma idle_wait_done:
  "\<not> elapsed < idle_display_time cfg \<Longrightarrow> idle_wait env cfg elapsed s = (None, elapsed, s)"
  by (subst idle_wait.simps) (simp add: Let_def)

lemma idle_wait_unfold:
  "elapsed < idle_display_time cfg \<Longrightarrow>
   idle_wait env cfg elapsed s =
     (case get_song_info env (log_event (Sleep 5) s) of
        (Inl e, s2) \<Rightarrow> (Some e, elapsed + 5, s2)
      | (Inr r, s2) \<Rightarrow>
          if song_truthy r then (None, elapsed + 5, s2) else idle_wait env cfg (elapsed + 5) s2)"
  by (subst idle_wait.simps) (simp add: Let_def)

lemma idle_wait_frame:
  "song_prev (snd (snd (idle_wait env cfg elapsed s))) = song_prev s \<and>
   builds (trace (snd (snd (idle_wait env cfg elapsed s)))) = builds (trace s)"
proof (induction "nat (idle_display_time cfg - elapsed)" arbitrary: elapsed s rule: less_induct)
  case less
  show ?case
  proof (cases "elapsed < idle_display_time cfg")
    case False
    then show ?thesis by (simp add: idle_wait_done)
  next
    case True
    let ?s1 = "log_event (Sleep 5) s"
    obtain r s2 where g: "get_song_info env ?s1 = (r, s2)" by (cases "get_song_info env ?s1")
    from get_song_info_frame[of env ?s1] g
    have s2: "song_prev s2 = song_prev s" "builds (trace s2) = builds (trace s)"
      by (simp_all add: log_event_def builds_def)
    show ?thesis
    proof (cases r)
      case (Inl e)
      then show ?thesis using True g s2 by (simp add: idle_wait_unfold)
    next
      case (Inr v)
      show ?thesis
      proof (cases "song_truthy v")
        case t: True
        then show ?thesis using True g s2 Inr by (simp add: idle_wait_unfold)
      next
        case f: False
        have "nat (idle_display_time cfg - (elapsed + 5)) < nat (idle_display_time cfg - elapsed)"
          using True by simp
        from less[OF this, of s2] s2 show ?thesis
          using True g Inr f by (simp add: idle_wait_unfold)
      qed
    qed
  qed
qed

text \<open>
  A pass of the loop whose poll returns a track: the key is stored; a frame build is
  requested exactly when the key differs from the one stored before.
\<close>

lemma iteration_track:
  assumes g: "get_song_info env s = (Inr (RTrack t u a), s1)"
  shows "song_prev (iteration env cfg s) = t @ u \<and>
         builds (trace (iteration env cfg s)) =
           builds (trace s) @ (if song_prev s = t @ u then [] else [Build (RTrack t u a)]) \<and>
         call_count (iteration env cfg s) = call_count s \<and>
         polls (iteration env cfg s) = polls s1"
proof -
  from get_song_info_frame[of env s] g
  have s1: "song_prev s1 = song_prev s" "builds (trace s1) = builds (trace s)" by simp_all
  have c1: "call_count s1 = call_count s" using g by (rule get_song_info_count)
  show ?thesis
  proof (cases "song_prev s = t @ u")
    case True
    then have "iteration env cfg s = sleep_delay cfg s1"
      using g s1 by (simp add: iteration_def Let_def)
    then show ?thesis using True s1 c1 by (simp add: sleep_delay_frame)
  next
    case False
    let ?s2 = "s1\<lparr>song_prev := t @ u\<rparr>"
    have "iteration env cfg s =
            sleep_delay cfg (snd (display_update_process env cfg (RTrack t u a) ?s2))"
      using g s1 False by (simp add: iteration_def Let_def split: prod.splits)
    then show ?thesis
      using False s1 c1 display_update_process_frame[of env cfg "RTrack t u a" ?s2]
      by (simp add: sleep_delay_frame)
  qed
qed

text \<open>
  A pass whose poll returns \<open>None\<close> or the empty list is an idle pass: the key becomes
  \<open>NO_SONG\<close> and one idle frame is requested.
\<close>

lemma iteration_idle:
  assumes g: "get_song_info env s = (Inr r, s1)" and f: "\<not> song_truthy r"
  shows "song_prev (iteration env cfg s) = ''NO_SONG'' \<and>
         builds (trace (iteration env cfg s)) = builds (trace s) @ [Build REmpty]"
proof -
  from get_song_info_frame[of env s] g
  have s1: "builds (trace s1) = builds (trace s)" by simp
  let ?s2 = "s1\<lparr>song_prev := ''NO_SONG''\<rparr>"
  obtain res s3 where d: "display_update_process env cfg REmpty ?s2 = (res, s3)"
    by (cases "display_update_process env cfg REmpty ?s2")
  from display_update_process_frame[of env cfg REmpty ?s2] d s1
  have s3: "song_prev s3 = ''NO_SONG''" "builds (trace s3) = builds (trace s) @ [Build REmpty]"
    by simp_all
  have it: "iteration env cfg s =
          (case res of
             Some e \<Rightarrow> sleep_delay cfg s3
           | None \<Rightarrow> (case idle_wait env cfg 0 s3 of
                        (Some e, elapsed, s4) \<Rightarrow> sleep_delay cfg s4
                      | (None, elapsed, s4) \<Rightarrow> s4))"
    using g f d by (cases r) (simp_all add: iteration_def)
  show ?thesis
  proof (cases res)
    case (Some e)
    then show ?thesis using it s3 by (simp add: sleep_delay_frame)
  next
    case None
    obtain e elapsed s4 where w: "idle_wait env cfg 0 s3 = (e, elapsed, s4)"
      by (cases "idle_wait env cfg 0 s3")
    from idle_wait_frame[of env cfg 0 s3] w s3
    have s4: "song_prev s4 = ''NO_SONG''" "builds (trace s4) = builds (trace s) @ [Build REmpty]"
      by simp_all
    show ?thesis using it None w s4 by (cases e) (simp_all add: sleep_delay_frame)
  qed
qed

text \<open>An idle pass whose frame was pushed and whose wait was not cut by an exception ends
  in the state in which the wait ended.\<close>

lemma iteration_idle_wait:
  assumes "get_song_info env s0 = (Inr r, s1)" and "\<not> song_truthy r"
    and "display_update_process env cfg REmpty (s1\<lparr>song_prev := ''NO_SONG''\<rparr>) = (None, s)"
    and "idle_wait env cfg 0 s = (None, elapsed, s')"
  shows "iteration env cfg s0 = s'"
  using assms by (cases r) (simp_all add: iteration_def)

text \<open>A poll adds nothing to the trace but its retry sleeps.\<close>

lemma get_song_info_trace:
  "\<exists>n. trace (snd (get_song_info env s)) = trace s @ replicate n SleepRetry"
proof (induction "nat (10 - call_count s)" arbitrary: s)
  case 0
  then have "\<not> call_count s + 1 < 10" by simp
  then have "trace (snd (get_song_info env s)) = trace s @ replicate 0 SleepRetry"
    by (simp add: get_song_info_limit)
  then show ?case by blast
next
  case (Suc n)
  have none: "\<exists>n. trace (s\<lparr>polls := polls s + 1\<rparr>) = trace s @ replicate n SleepRetry"
    by (rule exI[of _ 0]) simp
  have none': "\<exists>n. trace (s\<lparr>call_count := call_count s + 1, polls := polls s + 1\<rparr>) =
                   trace s @ replicate n SleepRetry"
    by (rule exI[of _ 0]) simp
  show ?case
  proof (cases "call_count s + 1 < 10")
    case False
    then have "trace (snd (get_song_info env s)) = trace s @ replicate 0 SleepRetry"
      by (simp add: get_song_info_limit)
    then show ?thesis by blast
  next
    case True
    let ?s' = "s\<lparr>call_count := call_count s + 1, polls := polls s + 1,
                  trace := trace s @ [SleepRetry]\<rparr>"
    have n: "n = nat (10 - call_count ?s')" using Suc.hyps(2) by simp
    have retry: ?thesis
      if r: "env_source env (polls s) = Unknown \<or> env_source env (polls s) = Malformed"
    proof -
      obtain k where k: "trace (snd (get_song_info env ?s')) = trace ?s' @ replicate k SleepRetry"
        using Suc.hyps(1)[OF n] by blast
      have "trace (snd (get_song_info env s)) = trace (snd (get_song_info env ?s'))"
        using get_song_info_retry[OF True r] by (simp split: prod.splits sum.splits)
      with k have "trace (snd (get_song_info env s)) = trace s @ replicate (Suc k) SleepRetry"
        by simp
      then show ?thesis by blast
    qed
    show ?thesis
    proof (cases "env_source env (polls s)")
      case Unknown
      then show ?thesis using retry by simp
    next
      case Malformed
      then show ?thesis using retry by simp
    next
      case Broken
      then show ?thesis using True none' by (simp add: get_song_info_broken)
    next
      case (Episode song artist cover_url)
      then show ?thesis using True none by (simp add: get_song_info_episode)
    next
      case (Track song artists cover_url)
      then show ?thesis using True none by (simp add: get_song_info_track)
    qed (use True none in \<open>simp_all add: get_song_info_quiet\<close>)
  qed
qed

text \<open>The wait, increment by increment, as long as the polls return nothing playing.\<close>

lemma idle_wait_run:
  "\<forall>j<k. \<exists>r. fst (get_song_info env (log_event (Sleep 5) (wait_state env j s))) = Inr r \<and>
               \<not> song_truthy r \<Longrightarrow>
   k = 0 \<or> elapsed + 5 * (int k - 1) < idle_display_time cfg \<Longrightarrow>
   idle_wait env cfg elapsed s = idle_wait env cfg (elapsed + 5 * int k) (wait_state env k s)"
proof (induction k)
  case 0
  then show ?case by simp
next
  case (Suc k)
  let ?sk = "wait_state env k s"
  have el: "elapsed + 5 * int k < idle_display_time cfg" using Suc.prems(2) by simp
  then have "k = 0 \<or> elapsed + 5 * (int k - 1) < idle_display_time cfg" by simp
  moreover have "\<forall>j<k. \<exists>r. fst (get_song_info env (log_event (Sleep 5) (wait_state env j s))) = Inr r \<and>
               \<not> song_truthy r"
    using Suc.prems(1) by simp
  ultimately have run: "idle_wait env cfg elapsed s = idle_wait env cfg (elapsed + 5 * int k) ?sk"
    using Suc.IH by blast
  obtain r where r: "fst (get_song_info env (log_event (Sleep 5) ?sk)) = Inr r" "\<not> song_truthy r"
    using Suc.prems(1) by blast
  obtain s2 where g: "get_song_info env (log_event (Sleep 5) ?sk) = (Inr r, s2)"
    using r(1) by (cases "get_song_info env (log_event (Sleep 5) ?sk)") simp
  have s2: "wait_state env (Suc k) s = s2" by (simp add: g)
  have "idle_wait env cfg (elapsed + 5 * int k) ?sk =
        idle_wait env cfg (elapsed + 5 * int k + 5) s2"
    using r(2) el g by (simp add: idle_wait_unfold)
  with run s2 show ?case by (simp add: algebra_simps)
qed

lemma idle_wait_break:
  assumes "fst (get_song_info env (log_event (Sleep 5) s)) = Inr r" and "song_truthy r"
    and "elapsed < idle_display_time cfg"
  shows "idle_wait env cfg elapsed s =
           (None, elapsed + 5, snd (get_song_info env (log_event (Sleep 5) s)))"
proof -
  obtain s2 where g: "get_song_info env (log_event (Sleep 5) s) = (Inr r, s2)"
    using assms(1) by (cases "get_song_info env (log_event (Sleep 5) s)") simp
  then show ?thesis
    using assms(2,3) by (simp add: idle_wait_unfold)
qed

text \<open>Each increment of the wait is one sleep of 5 units in the trace.\<close>

lemma wait_state_sleeps:
  "count_list (trace (wait_state env n s)) (Sleep 5) = count_list (trace s) (Sleep 5) + n"
proof (induction n)
  case 0
  then show ?case by simp
next
  case (Suc n)
  let ?s1 = "log_event (Sleep 5) (wait_state env n s)"
  obtain k where "trace (snd (get_song_info env ?s1)) = trace ?s1 @ replicate k SleepRetry"
    using get_song_info_trace by blast
  then have "count_list (trace (wait_state env (Suc n) s)) (Sleep 5) =
             count_list (trace (wait_state env n s)) (Sleep 5) + 1"
    by (simp add: log_event_def)
  with Suc show ?case by simp
qed

text \<open>The states of the wait while the source is quiet, and when the track comes.\<close>

lemma wait_state_quiet:
  "call_count s = 0 \<Longrightarrow> \<forall>j<k. quiet (env_source env (polls s + j)) \<Longrightarrow>
   wait_state env k s = s\<lparr>polls := polls s + k, trace := trace s @ replicate k (Sleep 5)\<rparr> \<and>
   (\<forall>j<k. fst (get_song_info env (log_event (Sleep 5) (wait_state env j s))) = Inr REmpty)"
proof (induction k)
  case 0
  then show ?case by simp
next
  case (Suc k)
  let ?sk = "s\<lparr>polls := polls s + k, trace := trace s @ replicate k (Sleep 5)\<rparr>"
  from Suc have IH: "wait_state env k s = ?sk"
    "\<forall>j<k. fst (get_song_info env (log_event (Sleep 5) (wait_state env j s))) = Inr REmpty"
    by simp_all
  let ?s1 = "log_event (Sleep 5) ?sk"
  have "call_count ?s1 + 1 < 10" using Suc.prems(1) by (simp add: log_event_def)
  moreover have "quiet (env_source env (polls ?s1))"
    using Suc.prems(2) by (simp add: log_event_def)
  ultimately have g: "get_song_info env ?s1 = (Inr REmpty, ?s1\<lparr>polls := polls ?s1 + 1\<rparr>)"
    by (rule get_song_info_quiet)
  have "wait_state env (Suc k) s = ?s1\<lparr>polls := polls ?s1 + 1\<rparr>"
    by (simp add: IH(1) g)
  also have "\<dots> = s\<lparr>polls := polls s + Suc k, trace := trace s @ replicate (Suc k) (Sleep 5)\<rparr>"
    by (simp add: log_event_def replicate_append_same)
  finally have st: "wait_state env (Suc k) s =
            s\<lparr>polls := polls s + Suc k, trace := trace s @ replicate (Suc k) (Sleep 5)\<rparr>" .
  have "fst (get_song_info env (log_event (Sleep 5) (wait_state env j s))) = Inr REmpty"
    if "j < Suc k" for j
  proof (cases "j = k")
    case True
    then show ?thesis by (simp add: IH(1) g)
  next
    case False
    with that IH(2) show ?thesis by simp
  qed
  with st show ?case by blast
qed

lemma wait_state_playing:
  assumes "call_count s = 0" and "\<forall>j<k. quiet (env_source env (polls s + j))"
    and "playing (env_source env (polls s + k))"
  shows "wait_state env (Suc k) s =
           s\<lparr>polls := polls s + Suc k, trace := trace s @ replicate (Suc k) (Sleep 5)\<rparr> \<and>
         (\<exists>r. fst (get_song_info env (log_event (Sleep 5) (wait_state env k s))) = Inr r \<and>
              song_truthy r)"
proof -
  let ?sk = "s\<lparr>polls := polls s + k, trace := trace s @ replicate k (Sleep 5)\<rparr>"
  have sk: "wait_state env k s = ?sk" using wait_state_quiet[OF assms(1,2)] by simp
  let ?s1 = "log_event (Sleep 5) ?sk"
  have "call_count ?s1 + 1 < 10" using assms(1) by (simp add: log_event_def)
  moreover have "playing (env_source env (polls ?s1))" using assms(3) by (simp add: log_event_def)
  ultimately obtain song cover_url artist where
    g: "get_song_info env ?s1 = (Inr (RTrack song cover_url artist), ?s1\<lparr>polls := polls ?s1 + 1\<rparr>)"
    using get_song_info_playing by blast
  have "wait_state env (Suc k) s = ?s1\<lparr>polls := polls ?s1 + 1\<rparr>"
    by (simp add: sk g)
  also have "\<dots> = s\<lparr>polls := polls s + Suc k, trace := trace s @ replicate (Suc k) (Sleep 5)\<rparr>"
    by (simp add: log_event_def replicate_append_same)
  finally have "wait_state env (Suc k) s =
          s\<lparr>polls := polls s + Suc k, trace := trace s @ replicate (Suc k) (Sleep 5)\<rparr>" .
  moreover have "fst (get_song_info env (log_event (Sleep 5) (wait_state env k s))) =
                   Inr (RTrack song cover_url artist)"
    by (simp add: sk g)
  ultimately show ?thesis by auto
qed


section \<open>FrameCompositor: the size of the frame\<close>

lemma paste_size:
  "img_width (paste c src x y) = img_width c \<and> img_height (paste c src x y) = img_height c"
  by (simp add: paste_def paint_on_def)

lemma fold_paste_size:
  "img_width (fold (\<lambda>y c. paste c src x y) ys c) = img_width c \<and>
   img_height (fold (\<lambda>y c. paste c src x y) ys c) = img_height c"
  by (induction ys arbitrary: c) (simp_all add: paste_size)

lemma fold_fold_paste_size:
  "img_width (fold (\<lambda>x c. fold (\<lambda>y c. paste c src x y) ys c) xs c) = img_width c \<and>
   img_height (fold (\<lambda>x c. fold (\<lambda>y c. paste c src x y) ys c) xs c) = img_height c"
  by (induction xs arbitrary: c) (simp_all add: fold_paste_size)

lemma tile_size:
  "tile canvas src target_w target_h bg_w bg_h = Inr c \<Longrightarrow>
   img_width c = img_width canvas \<and> img_height c = img_height canvas"
  by (auto simp: tile_def and_then_def fold_fold_paste_size split: sum.splits if_splits)

text \<open>Every branch of the background step ends with an image of the canvas size.\<close>

lemma gen_background_size:
  assumes "gen_background cfg src = Inr bg"
  shows "img_width bg = cfg_width cfg \<and> img_height bg = cfg_height cfg"
proof -
  let ?mode = "fallback ''fit'' (cfg_background_mode cfg)"
  consider (fit) "?mode = ''fit''" | (repeat) "?mode \<noteq> ''fit''" "?mode = ''repeat''"
    | (other) "?mode \<noteq> ''fit''" "?mode \<noteq> ''repeat''"
    by blast
  then show ?thesis
  proof cases
    case fit
    with assms show ?thesis
      by (auto simp: gen_background_def Let_def imageops_fit_def crop_def split: if_splits)
  next
    case repeat
    with assms obtain canvas where
      c: "image_new (cfg_width cfg) (cfg_height cfg) = Inr canvas" and
      t: "tile canvas src (cfg_width cfg) (cfg_height cfg) (img_width src) (img_height src) = Inr bg"
      by (auto simp: gen_background_def Let_def and_then_def split: sum.splits)
    from c have "img_width canvas = cfg_width cfg \<and> img_height canvas = cfg_height cfg"
      by (auto simp: image_new_def split: if_splits)
    with tile_size[OF t] show ?thesis by simp
  next
    case other
    with assms show ?thesis
      by (auto simp: gen_background_def Let_def crop_def split: if_splits)
  qed
qed

lemma gen_overlay_size:
  "gen_overlay cfg src show_small_cover background = Inr img \<Longrightarrow>
   img_width img = img_width background \<and> img_height img = img_height background"
  by (auto simp: gen_overlay_def Let_def and_then_def gaussian_blur_def paste_def paint_on_def
        split: sum.splits if_splits)

lemma fit_text_top_down_size:
  "fit_text_top_down tlen img arg tc sc fnt y fs xs xe sh = Inr (img', h) \<Longrightarrow>
   img_width img' = img_width img \<and> img_height img' = img_height img"
  by (auto simp: fit_text_top_down_def Let_def draw_pieces_paint paint_on_def split: option.splits)

lemma fit_text_bottom_up_size:
  "fit_text_bottom_up tlen img arg tc sc fnt y fs xs xe sh = Inr (img', h) \<Longrightarrow>
   img_width img' = img_width img \<and> img_height img' = img_height img"
  by (auto simp: fit_text_bottom_up_def Let_def draw_pieces_paint paint_on_def split: option.splits)

lemma gen_text_size:
  assumes "gen_text cfg tlen artist title img = Inr img'"
  shows "img_width img' = img_width img \<and> img_height img' = img_height img"
proof -
  let ?dir = "fallback ''top-down'' (cfg_text_direction cfg)"
  consider (down) "?dir = ''top-down''" | (up) "?dir \<noteq> ''top-down''" "?dir = ''bottom-up''"
    | (none) "?dir \<noteq> ''top-down''" "?dir \<noteq> ''bottom-up''"
    by blast
  then show ?thesis
  proof cases
    case down
    with assms obtain img1 h1 h2 y1 y2 where
      "fit_text_top_down tlen img title ''white'' ''black''
         (cfg_font_path cfg, cfg_font_size_title cfg) y1 (cfg_font_size_title cfg)
         (cfg_offset_px_left cfg) (cfg_offset_px_right cfg)
         (fallback 0 (cfg_offset_text_px_shadow cfg)) = Inr (img1, h1)"
      "fit_text_top_down tlen img1 artist ''white'' ''black''
         (cfg_font_path cfg, cfg_font_size_artist cfg) y2 (cfg_font_size_artist cfg)
         (cfg_offset_px_left cfg) (cfg_offset_px_right cfg)
         (fallback 0 (cfg_offset_text_px_shadow cfg)) = Inr (img', h2)"
      by (auto simp: gen_text_def Let_def and_then_def split: sum.splits prod.splits)
    then show ?thesis
      using fit_text_top_down_size by metis
  next
    case up
    with assms obtain img1 h1 h2 y1 y2 where
      "fit_text_bottom_up tlen img artist ''white'' ''black''
         (cfg_font_path cfg, cfg_font_size_artist cfg) y1 (cfg_font_size_artist cfg)
         (cfg_offset_px_left cfg) (cfg_offset_px_right cfg)
         (fallback 0 (cfg_offset_text_px_shadow cfg)) = Inr (img1, h1)"
      "fit_text_bottom_up tlen img1 title ''white'' ''black''
         (cfg_font_path cfg, cfg_font_size_title cfg) y2 (cfg_font_size_title cfg)
         (cfg_offset_px_left cfg) (cfg_offset_px_right cfg)
         (fallback 0 (cfg_offset_text_px_shadow cfg)) = Inr (img', h2)"
      by (auto simp: gen_text_def Let_def and_then_def split: sum.splits prod.splits)
    then show ?thesis
      using fit_text_bottom_up_size by metis
  next
    case none
    with assms show ?thesis by (simp add: gen_text_def Let_def)
  qed
qed

text \<open>
  C5. Whatever the source image, the texts, the background mode and the rest of the
  configuration, a frame that \<open>_gen_pic\<close> returns has exactly the configured canvas
  width and height.
\<close>

theorem C5_frame_has_canvas_size:
  assumes "gen_pic cfg tlen src artist title show_small_cover = Inr frame"
  shows "img_width frame = cfg_width cfg \<and> img_height frame = cfg_height cfg"
proof -
  from assms obtain bg img where
    b: "gen_background cfg src = Inr bg" and
    o: "gen_overlay cfg src show_small_cover bg = Inr img" and
    t: "gen_text cfg tlen artist title img = Inr frame"
    by (auto simp: gen_pic_def and_then_def split: sum.splits)
  from gen_text_size[OF t] gen_overlay_size[OF o] gen_background_size[OF b]
  show ?thesis by simp
qed

text \<open>Frames of the example configuration, evaluated.\<close>

lemma example_break_fix_artist:
  "break_fix (example_textlength (''font.ttf'', 35)) 556 (PStr ''The Beatles'') =
     Some [(''The Beatles'', 192)]"
  by (simp add: break_fix.simps break_fix_step_def bsearch.simps split_def is_space_def
        example_textlength_def Let_def)

lemma example_break_fix_title:
  "break_fix (example_textlength (''font.ttf'', 45)) 556 (PStr ''Hey Jude'') =
     Some [(''Hey Jude'', 180)]"
  by (simp add: break_fix.simps break_fix_step_def bsearch.simps split_def is_space_def
        example_textlength_def Let_def)

lemma example_gen_pic_track:
  "gen_pic example_config example_textlength (Image 640 640 [Decoded ''http://covers/1''])
     (PStr ''The Beatles'') (PStr ''Hey Jude'') True =
   Inr (Image 600 448
         [FitOf (Image 640 640 [Decoded ''http://covers/1'']), Blurred 5,
          Pasted (Image 200 200 [ResizeOf (Image 640 640 [Decoded ''http://covers/1''])]) 200 0,
          Text 24 397 ''The Beatles'' ''black'' (''font.ttf'', 35),
          Text 20 393 ''The Beatles'' ''white'' (''font.ttf'', 35),
          Text 24 352 ''Hey Jude'' ''black'' (''font.ttf'', 45),
          Text 20 348 ''Hey Jude'' ''white'' (''font.ttf'', 45)])"
proof -
  have b: "gen_background example_config (Image 640 640 [Decoded ''http://covers/1'']) =
           Inr (Image 600 448 [FitOf (Image 640 640 [Decoded ''http://covers/1''])])"
    by (simp add: gen_background_def example_config_def fallback_def imageops_fit_def)
  have o: "gen_overlay example_config (Image 640 640 [Decoded ''http://covers/1'']) True
             (Image 600 448 [FitOf (Image 640 640 [Decoded ''http://covers/1''])]) =
           Inr (Image 600 448
             [FitOf (Image 640 640 [Decoded ''http://covers/1'']), Blurred 5,
              Pasted (Image 200 200 [ResizeOf (Image 640 640 [Decoded ''http://covers/1''])]) 200 0])"
    by (simp add: gen_overlay_def example_config_def fallback_def gaussian_blur_def resize_def
          paste_def paint_on_def and_then_def)
  have t: "gen_text example_config example_textlength (PStr ''The Beatles'') (PStr ''Hey Jude'')
             (Image 600 448
               [FitOf (Image 640 640 [Decoded ''http://covers/1'']), Blurred 5,
                Pasted (Image 200 200 [ResizeOf (Image 640 640 [Decoded ''http://covers/1''])]) 200 0]) =
           Inr (Image 600 448
             [FitOf (Image 640 640 [Decoded ''http://covers/1'']), Blurred 5,
              Pasted (Image 200 200 [ResizeOf (Image 640 640 [Decoded ''http://covers/1''])]) 200 0,
              Text 24 397 ''The Beatles'' ''black'' (''font.ttf'', 35),
              Text 20 393 ''The Beatles'' ''white'' (''font.ttf'', 35),
              Text 24 352 ''Hey Jude'' ''black'' (''font.ttf'', 45),
              Text 20 348 ''Hey Jude'' ''white'' (''font.ttf'', 45)])"
    by (simp add: gen_text_def example_config_def fallback_def and_then_def Let_def
          fit_text_bottom_up_def example_break_fix_artist example_break_fix_title
          draw_line_def draw_text_def paint_on_def)
  show ?thesis by (simp add: gen_pic_def and_then_def b o t)
qed

lemma break_fix_empty: "break_fix m width (PStr []) = Some []"
  by (simp add: break_fix_falsy)

lemma example_gen_pic_idle:
  "fallback ''fit'' (cfg_background_mode cfg) = ''fit'' \<Longrightarrow> cfg_width cfg = 600 \<Longrightarrow>
   cfg_height cfg = 448 \<Longrightarrow> cfg_album_cover_small cfg \<Longrightarrow>
   fallback 0 (cfg_background_blur cfg) = 5 \<Longrightarrow>
   gen_pic cfg tlen (Image 300 200 [Decoded path]) (PStr []) (PStr []) False =
     Inr (Image 600 448 [FitOf (Image 300 200 [Decoded path]), Blurred 5])"
  by (simp add: gen_pic_def gen_background_def gen_overlay_def gen_text_def and_then_def Let_def
        imageops_fit_def gaussian_blur_def paint_on_def fit_text_top_down_def
        fit_text_bottom_up_def break_fix_empty)

theorem C5_frame_has_canvas_size_witness:
  "gen_pic example_config example_textlength (Image 640 640 [Decoded ''http://covers/1''])
     (PStr ''The Beatles'') (PStr ''Hey Jude'') True =
   Inr (Image 600 448
         [FitOf (Image 640 640 [Decoded ''http://covers/1'']), Blurred 5,
          Pasted (Image 200 200 [ResizeOf (Image 640 640 [Decoded ''http://covers/1''])]) 200 0,
          Text 24 397 ''The Beatles'' ''black'' (''font.ttf'', 35),
          Text 20 393 ''The Beatles'' ''white'' (''font.ttf'', 35),
          Text 24 352 ''Hey Jude'' ''black'' (''font.ttf'', 45),
          Text 20 348 ''Hey Jude'' ''white'' (''font.ttf'', 45)]) \<and>
   cfg_width example_config = 600 \<and> cfg_height example_config = 448 \<and>
   gen_pic example_config example_textlength (Image 300 200 [Decoded ''a.png''])
     (PStr []) (PStr []) False =
   Inr (Image 600 448 [FitOf (Image 300 200 [Decoded ''a.png'']), Blurred 5]) \<and>
   gen_pic (example_config\<lparr>cfg_background_mode := Some ''repeat''\<rparr>) example_textlength
     (Image 300 200 [Decoded ''a.png'']) (PStr []) (PStr []) False =
   Inr (Image 600 448
         [Blank, Pasted (Image 300 200 [Decoded ''a.png'']) 0 0,
          Pasted (Image 300 200 [Decoded ''a.png'']) 0 200,
          Pasted (Image 300 200 [Decoded ''a.png'']) 0 400,
          Pasted (Image 300 200 [Decoded ''a.png'']) 300 0,
          Pasted (Image 300 200 [Decoded ''a.png'']) 300 200,
          Pasted (Image 300 200 [Decoded ''a.png'']) 300 400, Blurred 5]) \<and>
   gen_pic (example_config\<lparr>cfg_background_mode := Some ''stretch''\<rparr>) example_textlength
     (Image 300 200 [Decoded ''a.png'']) (PStr []) (PStr []) False =
   Inr (Image 600 448 [CropOf (Image 300 200 [Decoded ''a.png'']) 0 0 600 448, Blurred 5])"
proof -
  have small: "gen_pic example_config example_textlength (Image 300 200 [Decoded ''a.png''])
     (PStr []) (PStr []) False =
     Inr (Image 600 448 [FitOf (Image 300 200 [Decoded ''a.png'']), Blurred 5])"
    by (rule example_gen_pic_idle) (simp_all add: example_config_def fallback_def)
  have r1: "py_range 600 300 = Inr [0, 300]"
    by (simp add: py_range_def upt_rec)
  have r2: "py_range 448 200 = Inr [0, 200, 400]"
    by (simp add: py_range_def upt_rec)
  have rep: "gen_pic (example_config\<lparr>cfg_background_mode := Some ''repeat''\<rparr>) example_textlength
     (Image 300 200 [Decoded ''a.png'']) (PStr []) (PStr []) False =
   Inr (Image 600 448
         [Blank, Pasted (Image 300 200 [Decoded ''a.png'']) 0 0,
          Pasted (Image 300 200 [Decoded ''a.png'']) 0 200,
          Pasted (Image 300 200 [Decoded ''a.png'']) 0 400,
          Pasted (Image 300 200 [Decoded ''a.png'']) 300 0,
          Pasted (Image 300 200 [Decoded ''a.png'']) 300 200,
          Pasted (Image 300 200 [Decoded ''a.png'']) 300 400, Blurred 5])"
    by (simp add: gen_pic_def gen_background_def gen_overlay_def gen_text_def and_then_def Let_def
          example_config_def fallback_def image_new_def tile_def r1 r2 paste_def
          gaussian_blur_def paint_on_def fit_text_bottom_up_def break_fix_empty)
  have other: "gen_pic (example_config\<lparr>cfg_background_mode := Some ''stretch''\<rparr>) example_textlength
     (Image 300 200 [Decoded ''a.png'']) (PStr []) (PStr []) False =
   Inr (Image 600 448 [CropOf (Image 300 200 [Decoded ''a.png'']) 0 0 600 448, Blurred 5])"
    by (simp add: gen_pic_def gen_background_def gen_overlay_def gen_text_def and_then_def Let_def
          example_config_def fallback_def crop_def
          gaussian_blur_def paint_on_def fit_text_bottom_up_def break_fix_empty)
  have dims: "cfg_width example_config = 600 \<and> cfg_height example_config = 448"
    by (simp add: example_config_def)
  from C5_frame_has_canvas_size[OF example_gen_pic_track] C5_frame_has_canvas_size[OF small]
    C5_frame_has_canvas_size[OF rep] C5_frame_has_canvas_size[OF other]
  show ?thesis using example_gen_pic_track small rep other dims by simp
qed


section \<open>The claims about the poller\<close>

text \<open>
  C8. Whatever the limiter's count \<open>c\<close> is when a poll starts (0, unless earlier polls
  ended with an exception), the poll takes at most \<open>9 - c\<close> answers from the track
  source. On \<open>unknown\<close> it retries at once, inside the same call (a \<open>time.sleep(0.01)\<close>,
  not a new pass of the loop). When the source says \<open>unknown\<close> until those \<open>9 - c\<close>
  answers are used up, the limiter cuts in and the poll returns \<open>None\<close>: not an
  exception, false in a condition, so the loop makes an idle pass (key \<open>NO_SONG\<close>, one
  idle frame requested). When a track answer comes before that, the same poll returns
  the track.
\<close>

theorem C8_unknown_retry_is_bounded:
  "polls (snd (get_song_info env s)) \<le> polls s + nat (9 - call_count s) \<and>
   ((\<forall>i < nat (9 - call_count s). env_source env (polls s + i) = Unknown) \<longrightarrow>
      get_song_info env s =
        (Inr RNone, s\<lparr>polls := polls s + nat (9 - call_count s),
                      trace := trace s @ replicate (nat (9 - call_count s)) SleepRetry\<rparr>) \<and>
      \<not> song_truthy RNone \<and>
      song_prev (iteration env cfg s) = ''NO_SONG'' \<and>
      builds (trace (iteration env cfg s)) = builds (trace s) @ [Build REmpty]) \<and>
   (\<forall>k song artists cover_url.
      call_count s + int k < 9 \<and> (\<forall>i<k. env_source env (polls s + i) = Unknown) \<and>
      env_source env (polls s + k) = Track song artists cover_url \<longrightarrow>
      get_song_info env s =
        (Inr (RTrack song cover_url (join_comma artists)),
         s\<lparr>polls := polls s + k + 1, trace := trace s @ replicate k SleepRetry\<rparr>))"
proof (intro conjI impI allI)
  show "polls (snd (get_song_info env s)) \<le> polls s + nat (9 - call_count s)"
    using get_song_info_frame[of env s] by simp
next
  let ?n = "nat (9 - call_count s)"
  assume u: "\<forall>i < ?n. env_source env (polls s + i) = Unknown"
  show g: "get_song_info env s =
        (Inr RNone, s\<lparr>polls := polls s + ?n, trace := trace s @ replicate ?n SleepRetry\<rparr>)"
  proof (cases "call_count s \<le> 9")
    case True
    then have "call_count s + int ?n = 9" by simp
    from get_song_info_exhaust[OF u this] show ?thesis .
  next
    case False
    then have "\<not> call_count s + 1 < 10" and "?n = 0" by simp_all
    then show ?thesis by (simp add: get_song_info_limit)
  qed
  show "\<not> song_truthy RNone" by simp
  from iteration_idle[OF g, of cfg]
  show "song_prev (iteration env cfg s) = ''NO_SONG''"
    and "builds (trace (iteration env cfg s)) = builds (trace s) @ [Build REmpty]"
    by simp_all
next
  fix k song artists cover_url
  assume a: "call_count s + int k < 9 \<and> (\<forall>i<k. env_source env (polls s + i) = Unknown) \<and>
             env_source env (polls s + k) = Track song artists cover_url"
  then show "get_song_info env s =
        (Inr (RTrack song cover_url (join_comma artists)),
         s\<lparr>polls := polls s + k + 1, trace := trace s @ replicate k SleepRetry\<rparr>)"
    using get_song_info_track_after[of k env s song artists cover_url] by blast
qed

theorem C8_unknown_retry_is_bounded_witness:
  "get_song_info unknown_env initial_state =
     (Inr RNone, initial_state\<lparr>polls := 9, trace := replicate 9 SleepRetry\<rparr>) \<and>
   song_prev (iteration unknown_env example_config initial_state) = ''NO_SONG'' \<and>
   builds (trace (iteration unknown_env example_config initial_state)) = [Build REmpty] \<and>
   get_song_info late_track_env initial_state =
     (Inr (RTrack ''Hey Jude'' ''http://covers/1'' ''The Beatles''),
      initial_state\<lparr>polls := 3, trace := [SleepRetry, SleepRetry]\<rparr>) \<and>
   get_song_info late_track_env (initial_state\<lparr>call_count := 8\<rparr>) =
     (Inr RNone, initial_state\<lparr>call_count := 8, polls := 1, trace := [SleepRetry]\<rparr>)"
proof -
  let ?s8 = "initial_state\<lparr>call_count := 8\<rparr>"
  have n0: "nat (9 - call_count initial_state) = 9" by (simp add: initial_state_def)
  have n8: "nat (9 - call_count ?s8) = 1" by simp
  have u: "\<forall>i < nat (9 - call_count initial_state).
             env_source unknown_env (polls initial_state + i) = Unknown"
    by (simp add: unknown_env_def)
  have l: "call_count initial_state + int 2 < 9 \<and>
           (\<forall>i<2. env_source late_track_env (polls initial_state + i) = Unknown) \<and>
           env_source late_track_env (polls initial_state + 2) =
             Track ''Hey Jude'' [''The Beatles''] ''http://covers/1''"
    by (simp add: late_track_env_def initial_state_def)
  have u8: "\<forall>i < nat (9 - call_count ?s8). env_source late_track_env (polls ?s8 + i) = Unknown"
    by (simp add: late_track_env_def initial_state_def)
  have p: "polls initial_state = 0" "trace initial_state = []"
    by (simp_all add: initial_state_def)
  from C8_unknown_retry_is_bounded[of unknown_env initial_state example_config] u
  have "get_song_info unknown_env initial_state =
          (Inr RNone, initial_state\<lparr>polls := polls initial_state + nat (9 - call_count initial_state),
             trace := trace initial_state @
                      replicate (nat (9 - call_count initial_state)) SleepRetry\<rparr>)"
    and "song_prev (iteration unknown_env example_config initial_state) = ''NO_SONG''"
    and "builds (trace (iteration unknown_env example_config initial_state)) =
           builds (trace initial_state) @ [Build REmpty]"
    by blast+
  moreover from C8_unknown_retry_is_bounded[of late_track_env initial_state example_config] l
  have "get_song_info late_track_env initial_state =
          (Inr (RTrack ''Hey Jude'' ''http://covers/1'' (join_comma [''The Beatles''])),
           initial_state\<lparr>polls := polls initial_state + 2 + 1,
                         trace := trace initial_state @ replicate 2 SleepRetry\<rparr>)"
    by blast
  moreover from C8_unknown_retry_is_bounded[of late_track_env ?s8 example_config] u8
  have "get_song_info late_track_env ?s8 =
          (Inr RNone, ?s8\<lparr>polls := polls ?s8 + nat (9 - call_count ?s8),
             trace := trace ?s8 @ replicate (nat (9 - call_count ?s8)) SleepRetry\<rparr>)"
    by blast
  ultimately show ?thesis
    unfolding n0 n8 by (simp add: p builds_def numeral_2_eq_2)
qed

text \<open>
  C4, as the claim states it, fails: it promises exactly one frame build for every two
  consecutive passes whose polls return the same track. In the example service the
  source always returns the same track. The first pass builds its frame; the second and
  the third pass both poll that track again, and no frame build is requested in either
  of them.
\<close>

theorem C4_no_build_across_later_pair:
  "fst (get_song_info example_env (run example_env example_config (Suc 0) initial_state)) =
     Inr (RTrack ''Hey Jude'' ''http://covers/1'' ''The Beatles'') \<and>
   fst (get_song_info example_env
          (run example_env example_config (Suc (Suc 0)) initial_state)) =
     Inr (RTrack ''Hey Jude'' ''http://covers/1'' ''The Beatles'') \<and>
   builds (trace (run example_env example_config (Suc (Suc (Suc 0))) initial_state)) =
     builds (trace (run example_env example_config (Suc 0) initial_state))"
proof -
  let ?A = "RTrack ''Hey Jude'' ''http://covers/1'' ''The Beatles''"
  let ?it = "iteration example_env example_config"
  have poll: "get_song_info example_env s = (Inr ?A, s\<lparr>polls := polls s + 1\<rparr>)"
    if "call_count s = 0" for s
    using that get_song_info_track[of s example_env "''Hey Jude''" "[''The Beatles'']"
            "''http://covers/1''"]
    by (simp add: example_env_def)
  have pass: "song_prev (?it s) = ''Hey Jude'' @ ''http://covers/1'' \<and>
              builds (trace (?it s)) = builds (trace s) @
                (if song_prev s = ''Hey Jude'' @ ''http://covers/1'' then [] else [Build ?A]) \<and>
              call_count (?it s) = 0"
    if "call_count s = 0" for s
    using iteration_track[OF poll[OF that], of example_config] that by simp
  have c0: "call_count initial_state = 0" by (simp add: initial_state_def)
  note p1 = pass[OF c0]
  have c1: "call_count (?it initial_state) = 0" using p1 by simp
  note p2 = pass[OF c1]
  have c2: "call_count (?it (?it initial_state)) = 0" using p2 by simp
  note p3 = pass[OF c2]
  have "builds (trace (?it (?it (?it initial_state)))) = builds (trace (?it initial_state))"
    using p1 p2 p3 by simp
  then show ?thesis using poll[OF c1] poll[OF c2] by simp
qed

text \<open>
  C4, amended. When two consecutive passes of the loop both poll a track with the same
  key (title followed by cover URL, whatever the artist), one frame build is requested
  across the two passes if the key stored before the first pass is another one, and none
  if it is already that key; either way the first pass leaves that key stored, and the
  second pass stores no new key and requests no build.
\<close>

theorem C4_same_track_twice:
  assumes "fst (get_song_info env s) = Inr (RTrack t1 u1 a1)"
    and "fst (get_song_info env (iteration env cfg s)) = Inr (RTrack t2 u2 a2)"
    and "t1 @ u1 = t2 @ u2"
  shows "builds (trace (iteration env cfg (iteration env cfg s))) =
           builds (trace s) @ (if song_prev s = t1 @ u1 then [] else [Build (RTrack t1 u1 a1)]) \<and>
         song_prev (iteration env cfg s) = t1 @ u1 \<and>
         builds (trace (iteration env cfg (iteration env cfg s))) =
           builds (trace (iteration env cfg s)) \<and>
         song_prev (iteration env cfg (iteration env cfg s)) = song_prev (iteration env cfg s)"
proof -
  obtain s1 where g1: "get_song_info env s = (Inr (RTrack t1 u1 a1), s1)"
    using assms(1) by (cases "get_song_info env s") auto
  obtain s2 where g2: "get_song_info env (iteration env cfg s) = (Inr (RTrack t2 u2 a2), s2)"
    using assms(2) by (cases "get_song_info env (iteration env cfg s)") auto
  note first = iteration_track[OF g1, of cfg]
  note second = iteration_track[OF g2, of cfg]
  from first second assms(3) show ?thesis by simp
qed

theorem C4_same_track_twice_witness:
  "builds (trace (iteration example_env example_config
                    (iteration example_env example_config initial_state))) =
     [Build (RTrack ''Hey Jude'' ''http://covers/1'' ''The Beatles'')] \<and>
   song_prev (iteration example_env example_config initial_state) = ''Hey Judehttp://covers/1'' \<and>
   song_prev (iteration example_env example_config
                (iteration example_env example_config initial_state)) =
     ''Hey Judehttp://covers/1''"
proof -
  let ?A = "RTrack ''Hey Jude'' ''http://covers/1'' ''The Beatles''"
  let ?it = "iteration example_env example_config"
  have poll: "get_song_info example_env s = (Inr ?A, s\<lparr>polls := polls s + 1\<rparr>)"
    if "call_count s = 0" for s
    using that get_song_info_track[of s example_env "''Hey Jude''" "[''The Beatles'']"
            "''http://covers/1''"]
    by (simp add: example_env_def)
  have c0: "call_count initial_state = 0" by (simp add: initial_state_def)
  have c1: "call_count (?it initial_state) = 0"
    using iteration_track[OF poll[OF c0], of example_config] c0 by simp
  have h1: "fst (get_song_info example_env initial_state) = Inr ?A" using poll[OF c0] by simp
  have h2: "fst (get_song_info example_env (?it initial_state)) = Inr ?A"
    using poll[OF c1] by simp
  from C4_same_track_twice[OF h1 h2 refl]
  show ?thesis by (simp add: initial_state_def builds_def)
qed

text \<open>
  C9. An idle pass has polled nothing playing, stored \<open>NO_SONG\<close> and pushed the idle
  frame; its wait starts at \<open>elapsed = 0\<close>. Every increment sleeps 5 units and polls
  once. If the polls of the first \<open>k\<close> increments return nothing playing and the poll of
  increment \<open>k + 1\<close> returns a track while \<open>5 * k\<close> is still below the idle time, the
  wait ends right after that increment, with \<open>elapsed = 5 * (k + 1)\<close>; if \<open>k\<close> such
  increments use up the idle time, the wait ends after them with \<open>elapsed = 5 * k\<close>. In
  both cases the pass ends in the state in which the wait ended: the last call of the
  pass is the last poll of the wait, and no \<open>time.sleep(self.delay)\<close> follows.
\<close>

theorem C9_idle_wait_early_exit:
  assumes "get_song_info env s0 = (Inr r0, s1)" and "\<not> song_truthy r0"
    and "display_update_process env cfg REmpty (s1\<lparr>song_prev := ''NO_SONG''\<rparr>) = (None, s)"
    and "\<forall>j<k. \<exists>r. fst (get_song_info env (log_event (Sleep 5) (wait_state env j s))) = Inr r \<and>
                    \<not> song_truthy r"
  shows "((\<exists>r. fst (get_song_info env (log_event (Sleep 5) (wait_state env k s))) = Inr r \<and>
               song_truthy r) \<and> 5 * int k < idle_display_time cfg \<longrightarrow>
            idle_wait env cfg 0 s = (None, 5 * (int k + 1), wait_state env (k + 1) s) \<and>
            iteration env cfg s0 = wait_state env (k + 1) s \<and>
            count_list (trace (iteration env cfg s0)) (Sleep 5) =
              count_list (trace s) (Sleep 5) + (k + 1)) \<and>
         ((k = 0 \<or> 5 * (int k - 1) < idle_display_time cfg) \<and> idle_display_time cfg \<le> 5 * int k \<longrightarrow>
            idle_wait env cfg 0 s = (None, 5 * int k, wait_state env k s) \<and>
            iteration env cfg s0 = wait_state env k s \<and>
            count_list (trace (iteration env cfg s0)) (Sleep 5) =
              count_list (trace s) (Sleep 5) + k)"
proof -
  have run: "idle_wait env cfg 0 s = idle_wait env cfg (5 * int k) (wait_state env k s)"
    if "k = 0 \<or> 5 * (int k - 1) < idle_display_time cfg"
    using idle_wait_run[OF assms(4), of 0 cfg] that by simp
  have early: "idle_wait env cfg 0 s = (None, 5 * (int k + 1), wait_state env (k + 1) s)"
    if p: "\<exists>r. fst (get_song_info env (log_event (Sleep 5) (wait_state env k s))) = Inr r \<and>
               song_truthy r"
      and t: "5 * int k < idle_display_time cfg"
  proof -
    from p obtain r where
      r: "fst (get_song_info env (log_event (Sleep 5) (wait_state env k s))) = Inr r"
         "song_truthy r"
      by blast
    have "k = 0 \<or> 5 * (int k - 1) < idle_display_time cfg" using t by simp
    then have "idle_wait env cfg 0 s = idle_wait env cfg (5 * int k) (wait_state env k s)"
      by (rule run)
    also have "\<dots> = (None, 5 * int k + 5,
                     snd (get_song_info env (log_event (Sleep 5) (wait_state env k s))))"
      using r t by (rule idle_wait_break)
    finally show ?thesis by (simp add: algebra_simps)
  qed
  have full: "idle_wait env cfg 0 s = (None, 5 * int k, wait_state env k s)"
    if "k = 0 \<or> 5 * (int k - 1) < idle_display_time cfg" and "idle_display_time cfg \<le> 5 * int k"
    using run[OF that(1)] that(2) by (simp add: idle_wait_done)
  note pass = iteration_idle_wait[OF assms(1) assms(2) assms(3)]
  show ?thesis
  proof (intro conjI impI)
    assume a: "(\<exists>r. fst (get_song_info env (log_event (Sleep 5) (wait_state env k s))) = Inr r \<and>
               song_truthy r) \<and> 5 * int k < idle_display_time cfg"
    then show w: "idle_wait env cfg 0 s = (None, 5 * (int k + 1), wait_state env (k + 1) s)"
      using early by blast
    from pass[OF w] show i: "iteration env cfg s0 = wait_state env (k + 1) s" .
    show "count_list (trace (iteration env cfg s0)) (Sleep 5) =
            count_list (trace s) (Sleep 5) + (k + 1)"
      unfolding i by (rule wait_state_sleeps)
  next
    assume a: "(k = 0 \<or> 5 * (int k - 1) < idle_display_time cfg) \<and>
               idle_display_time cfg \<le> 5 * int k"
    then show w: "idle_wait env cfg 0 s = (None, 5 * int k, wait_state env k s)"
      using full by blast
    from pass[OF w] show i: "iteration env cfg s0 = wait_state env k s" .
    show "count_list (trace (iteration env cfg s0)) (Sleep 5) = count_list (trace s) (Sleep 5) + k"
      unfolding i by (rule wait_state_sleeps)
  qed
qed

lemma example_idle_display:
  assumes "env_open_image env = env_open_image example_env"
    and "cfg = example_config \<or> cfg = short_idle_config"
  shows "display_update_process env cfg REmpty
           (initial_state\<lparr>polls := 1, song_prev := ''NO_SONG''\<rparr>) = (None, example_idle_state)"
proof -
  have g: "gen_pic cfg (env_textlength env) (Image 300 200 [Decoded ''a.png'']) (PStr []) (PStr [])
             False = Inr (Image 600 448 [FitOf (Image 300 200 [Decoded ''a.png'']), Blurred 5])"
    using assms(2)
    by (intro example_gen_pic_idle)
      (auto simp: example_config_def short_idle_config_def fallback_def)
  have i: "idle_images cfg = [''a.png'', ''b.jpg'', ''c.jpeg'']" "\<not> idle_shuffle cfg"
    "fallback 20 (cfg_display_refresh_counter cfg) = 20"
    using assms(2) by (auto simp: example_config_def short_idle_config_def fallback_def)
  show ?thesis
    by (simp add: display_update_process_def build_frame_def get_idle_image_def
          get_idle_image_path_def open_image_def assms(1) example_env_def g i
          refresh_and_show_def display_image_def log_event_def initial_state_def
          example_idle_state_def Let_def)
qed

theorem C9_idle_wait_early_exit_witness:
  "idle_display_time example_config = 300 \<and>
   idle_wait idle_then_play_env example_config 0 example_idle_state =
     (None, 15,
      example_idle_state\<lparr>polls := 4,
        trace := trace example_idle_state @ [Sleep 5, Sleep 5, Sleep 5]\<rparr>) \<and>
   iteration idle_then_play_env example_config initial_state =
     example_idle_state\<lparr>polls := 4,
       trace := trace example_idle_state @ [Sleep 5, Sleep 5, Sleep 5]\<rparr> \<and>
   idle_wait silent_env short_idle_config 0 example_idle_state =
     (None, 10,
      example_idle_state\<lparr>polls := 3, trace := trace example_idle_state @ [Sleep 5, Sleep 5]\<rparr>) \<and>
   iteration silent_env short_idle_config initial_state =
     example_idle_state\<lparr>polls := 3, trace := trace example_idle_state @ [Sleep 5, Sleep 5]\<rparr>"
proof -
  have c0: "call_count initial_state + 1 < 10" by (simp add: initial_state_def)
  have s1: "initial_state\<lparr>polls := polls initial_state + 1\<rparr>\<lparr>song_prev := ''NO_SONG''\<rparr> =
            initial_state\<lparr>polls := 1, song_prev := ''NO_SONG''\<rparr>"
    by (simp add: initial_state_def)
  have c: "call_count example_idle_state = 0" by (simp add: example_idle_state_def)
  have p: "polls example_idle_state = 1" by (simp add: example_idle_state_def)
  have f: "\<not> song_truthy REmpty" by simp
  \<comment> \<open>the wait that a track cuts short at the third increment\<close>
  have g1: "get_song_info idle_then_play_env initial_state =
              (Inr REmpty, initial_state\<lparr>polls := polls initial_state + 1\<rparr>)"
    using c0 by (rule get_song_info_quiet) (simp add: idle_then_play_env_def initial_state_def)
  have d1: "display_update_process idle_then_play_env example_config REmpty
              (initial_state\<lparr>polls := polls initial_state + 1\<rparr>\<lparr>song_prev := ''NO_SONG''\<rparr>) =
            (None, example_idle_state)"
    unfolding s1 by (rule example_idle_display) (simp_all add: idle_then_play_env_def)
  have q1: "\<forall>j<2. quiet (env_source idle_then_play_env (polls example_idle_state + j))"
    by (simp add: idle_then_play_env_def p)
  have pl: "playing (env_source idle_then_play_env (polls example_idle_state + 2))"
    by (simp add: idle_then_play_env_def p)
  note ws1 = wait_state_playing[OF c q1 pl]
  have h1: "\<forall>j<2. \<exists>r. fst (get_song_info idle_then_play_env
                 (log_event (Sleep 5) (wait_state idle_then_play_env j example_idle_state))) = Inr r \<and>
               \<not> song_truthy r"
    using wait_state_quiet[OF c q1] by auto
  have e1: "(\<exists>r. fst (get_song_info idle_then_play_env
                 (log_event (Sleep 5) (wait_state idle_then_play_env 2 example_idle_state))) = Inr r \<and>
               song_truthy r) \<and> 5 * int 2 < idle_display_time example_config"
    using ws1 by (simp add: example_config_def)
  note w1 = C9_idle_wait_early_exit[OF g1 f d1 h1, THEN conjunct1, rule_format, OF e1]
  \<comment> \<open>the wait that runs to its end\<close>
  have g2: "get_song_info silent_env initial_state =
              (Inr REmpty, initial_state\<lparr>polls := polls initial_state + 1\<rparr>)"
    using c0 by (rule get_song_info_quiet) (simp add: silent_env_def)
  have d2: "display_update_process silent_env short_idle_config REmpty
              (initial_state\<lparr>polls := polls initial_state + 1\<rparr>\<lparr>song_prev := ''NO_SONG''\<rparr>) =
            (None, example_idle_state)"
    unfolding s1 by (rule example_idle_display) (simp_all add: silent_env_def)
  have q2: "\<forall>j<2. quiet (env_source silent_env (polls example_idle_state + j))"
    by (simp add: silent_env_def)
  note ws2 = wait_state_quiet[OF c q2]
  have h2: "\<forall>j<2. \<exists>r. fst (get_song_info silent_env
                 (log_event (Sleep 5) (wait_state silent_env j example_idle_state))) = Inr r \<and>
               \<not> song_truthy r"
    using ws2 by auto
  have e2: "((2::nat) = 0 \<or> 5 * (int 2 - 1) < idle_display_time short_idle_config) \<and>
            idle_display_time short_idle_config \<le> 5 * int 2"
    by (simp add: short_idle_config_def example_config_def)
  note w2 = C9_idle_wait_early_exit[OF g2 f d2 h2, THEN conjunct2, rule_format, OF e2]
  have t: "idle_display_time example_config = 300" by (simp add: example_config_def)
  have st1: "wait_state idle_then_play_env (2 + 1) example_idle_state =
             example_idle_state\<lparr>polls := 4,
               trace := trace example_idle_state @ [Sleep 5, Sleep 5, Sleep 5]\<rparr>"
    using ws1 by (simp add: p numeral_2_eq_2)
  have st2: "wait_state silent_env 2 example_idle_state =
             example_idle_state\<lparr>polls := 3, trace := trace example_idle_state @ [Sleep 5, Sleep 5]\<rparr>"
    using ws2 by (simp add: p numeral_2_eq_2)
  show ?thesis
    using w1 w2 t unfolding st1 st2 by simp
qed


section \<open>Supplementary facts\<close>

text \<open>The example measurement is monotonic: a word more never measures less.\<close>

lemma join_sp_snoc_length: "length (join_sp ts) \<le> length (join_sp (ts @ [t]))"
  by (induction ts rule: join_sp.induct) simp_all

lemma mono_width_monotonic: "mono_width (join_sp ts) \<le> mono_width (join_sp (ts @ [t]))"
  by (simp add: mono_width_def join_sp_snoc_length)

text \<open>
  \<open>_gen_pic\<close> does return a frame when the source image and the canvas have pixels, the
  small cover, if it is pasted, has a positive size, and both texts can be broken into
  lines.
\<close>

lemma gen_background_returns:
  assumes "0 < cfg_width cfg" and "0 < cfg_height cfg"
    and "0 < img_width src" and "0 < img_height src"
  shows "\<exists>bg. gen_background cfg src = Inr bg"
proof -
  have "py_range (cfg_width cfg) (img_width src) \<noteq> Inl ValueError"
       "py_range (cfg_height cfg) (img_height src) \<noteq> Inl ValueError"
    using assms by (simp_all add: py_range_def)
  then obtain rx ry where
    "py_range (cfg_width cfg) (img_width src) = Inr rx"
    "py_range (cfg_height cfg) (img_height src) = Inr ry"
    using assms by (auto simp: py_range_def)
  then show ?thesis
    using assms
    by (simp add: gen_background_def Let_def imageops_fit_def crop_def image_new_def tile_def
          and_then_def)
qed

lemma fit_text_top_down_returns:
  "break_fix (tlen fnt) (img_width img - xs - xe - sh) arg \<noteq> None \<Longrightarrow>
   \<exists>img' h. fit_text_top_down tlen img arg tc sc fnt y fs xs xe sh = Inr (img', h) \<and>
            img_width img' = img_width img"
  by (auto simp: fit_text_top_down_def Let_def draw_pieces_paint paint_on_def)

lemma fit_text_bottom_up_returns:
  "break_fix (tlen fnt) (img_width img - xs - xe - sh) arg \<noteq> None \<Longrightarrow>
   \<exists>img' h. fit_text_bottom_up tlen img arg tc sc fnt y fs xs xe sh = Inr (img', h) \<and>
            img_width img' = img_width img"
  by (auto simp: fit_text_bottom_up_def Let_def draw_pieces_paint paint_on_def)

lemma gen_text_returns:
  assumes t: "break_fix (tlen (cfg_font_path cfg, cfg_font_size_title cfg))
           (img_width img - cfg_offset_px_left cfg - cfg_offset_px_right cfg
              - fallback 0 (cfg_offset_text_px_shadow cfg)) title \<noteq> None"
    and a: "break_fix (tlen (cfg_font_path cfg, cfg_font_size_artist cfg))
           (img_width img - cfg_offset_px_left cfg - cfg_offset_px_right cfg
              - fallback 0 (cfg_offset_text_px_shadow cfg)) artist \<noteq> None"
  shows "\<exists>frame. gen_text cfg tlen artist title img = Inr frame"
proof -
  let ?dir = "fallback ''top-down'' (cfg_text_direction cfg)"
  let ?l = "cfg_offset_px_left cfg" and ?r = "cfg_offset_px_right cfg"
  let ?sh = "fallback 0 (cfg_offset_text_px_shadow cfg)"
  let ?ft = "(cfg_font_path cfg, cfg_font_size_title cfg)"
  let ?fa = "(cfg_font_path cfg, cfg_font_size_artist cfg)"
  consider (down) "?dir = ''top-down''" | (up) "?dir \<noteq> ''top-down''" "?dir = ''bottom-up''"
    | (none) "?dir \<noteq> ''top-down''" "?dir \<noteq> ''bottom-up''"
    by blast
  then show ?thesis
  proof cases
    case down
    let ?y1 = "cfg_album_cover_small_px cfg + cfg_offset_px_top cfg + 10"
    obtain img1 h1 where
      f1: "fit_text_top_down tlen img title ''white'' ''black'' ?ft ?y1 (cfg_font_size_title cfg)
             ?l ?r ?sh = Inr (img1, h1)" and w1: "img_width img1 = img_width img"
      using fit_text_top_down_returns[where tlen=tlen and fnt="?ft" and img=img and xs="?l"
              and xe="?r" and sh="?sh" and arg=title and tc="''white''" and sc="''black''"
              and y="?y1" and fs="cfg_font_size_title cfg"] t
      by blast
    obtain img2 h2 where
      "fit_text_top_down tlen img1 artist ''white'' ''black'' ?fa (?y1 + h1)
         (cfg_font_size_artist cfg) ?l ?r ?sh = Inr (img2, h2)"
      using fit_text_top_down_returns[where tlen=tlen and fnt="?fa" and img=img1 and xs="?l"
              and xe="?r" and sh="?sh" and arg=artist and tc="''white''" and sc="''black''"
              and y="?y1 + h1" and fs="cfg_font_size_artist cfg"] a w1
      by auto
    with f1 down show ?thesis by (simp add: gen_text_def Let_def and_then_def)
  next
    case up
    let ?y1 = "img_height img - (cfg_offset_px_bottom cfg + cfg_font_size_artist cfg)"
    obtain img1 h1 where
      f1: "fit_text_bottom_up tlen img artist ''white'' ''black'' ?fa ?y1
             (cfg_font_size_artist cfg) ?l ?r ?sh = Inr (img1, h1)"
      and w1: "img_width img1 = img_width img"
      using fit_text_bottom_up_returns[where tlen=tlen and fnt="?fa" and img=img and xs="?l"
              and xe="?r" and sh="?sh" and arg=artist and tc="''white''" and sc="''black''"
              and y="?y1" and fs="cfg_font_size_artist cfg"] a
      by blast
    let ?y2 = "img_height img1 - (cfg_offset_px_bottom cfg + cfg_font_size_title cfg) - h1"
    obtain img2 h2 where
      "fit_text_bottom_up tlen img1 title ''white'' ''black'' ?ft ?y2
         (cfg_font_size_title cfg) ?l ?r ?sh = Inr (img2, h2)"
      using fit_text_bottom_up_returns[where tlen=tlen and fnt="?ft" and img=img1 and xs="?l"
              and xe="?r" and sh="?sh" and arg=title and tc="''white''" and sc="''black''"
              and y="?y2" and fs="cfg_font_size_title cfg"] t w1
      by auto
    with f1 up show ?thesis by (simp add: gen_text_def Let_def and_then_def)
  next
    case none
    then show ?thesis by (simp add: gen_text_def Let_def)
  qed
qed

lemma gen_pic_returns:
  assumes "0 < cfg_width cfg" and "0 < cfg_height cfg"
    and "0 < img_width src" and "0 < img_height src"
    and "show_small_cover \<and> cfg_album_cover_small cfg \<longrightarrow> 0 < cfg_album_cover_small_px cfg"
    and "break_fix (tlen (cfg_font_path cfg, cfg_font_size_title cfg))
           (cfg_width cfg - cfg_offset_px_left cfg - cfg_offset_px_right cfg
              - fallback 0 (cfg_offset_text_px_shadow cfg)) title \<noteq> None"
    and "break_fix (tlen (cfg_font_path cfg, cfg_font_size_artist cfg))
           (cfg_width cfg - cfg_offset_px_left cfg - cfg_offset_px_right cfg
              - fallback 0 (cfg_offset_text_px_shadow cfg)) artist \<noteq> None"
  shows "\<exists>frame. gen_pic cfg tlen src artist title show_small_cover = Inr frame"
proof -
  obtain bg where b: "gen_background cfg src = Inr bg"
    using gen_background_returns[OF assms(1-4)] by blast
  have bgs: "img_width bg = cfg_width cfg"
    using gen_background_size[OF b] by simp
  obtain img where o: "gen_overlay cfg src show_small_cover bg = Inr img"
    using assms(3-5)
    by (cases "show_small_cover \<and> cfg_album_cover_small cfg")
      (auto simp: gen_overlay_def Let_def and_then_def resize_def)
  have w: "img_width img = cfg_width cfg"
    using gen_overlay_size[OF o] bgs by simp
  obtain frame where "gen_text cfg tlen artist title img = Inr frame"
    using gen_text_returns[of tlen cfg img title artist] assms(6,7) unfolding w by blast
  with b o show ?thesis by (auto simp: gen_pic_def and_then_def)
qed

end
